theory Spec2Isabelle
  imports Main "HOL-Library.AList" "HOL-Library.Multiset"
begin

section \<open>Data model\<close>

text \<open>
  A Python \<open>str\<close> is a sequence of Unicode code points; a character is modelled by
  its code point, so that \<open>len\<close>, \<open>enumerate\<close> and the dictionary keys count what
  Python counts.
\<close>

type_synonym codepoint = nat
type_synonym pystr = "codepoint list"

definition str :: "string \<Rightarrow> pystr" where
  "str s = map of_char s"

text \<open>
  Modelled from the spec: the alphabet, \<open>string.printable\<close>, is imported from the
  Python standard library and is no part of the repository (the specification: printable
  ASCII, that is digits, letters, punctuation and the whitespace control characters). Its
  value is \<open>digits + ascii_lowercase + ascii_uppercase + punctuation + whitespace\<close>,
  in this order, which is the order in which \<open>letter_counts\<close> is filled and hence the
  key order of every profile; \<open>whitespace\<close> is space, tab, line feed, carriage return,
  vertical tab, form feed.
\<close>

definition printable :: pystr where
  "printable =
     [48..<58] @ [97..<123] @ [65..<91]
     @ [33..<48] @ [58..<65] @ [91..<97] @ [123..<127]
     @ [32, 9, 10, 13, 11, 12]"

text \<open>
  The value stored under a character is the two-element list \<open>[count, positions]\<close>.
  That list object is shared: the dict comprehensions of \<open>__init__\<close> and
  \<open>compare_dicts\<close> copy references, so \<open>letter_counts\<close>, \<open>non_zero\<close> and
  \<open>common_dict\<close> (later \<open>shared\<close>) point to the same objects, and
  \<open>common_dict[key][1] = ...\<close> is seen through all of them. These objects therefore
  live in a store, addressed by their index. The position list inside is referenced from
  its entry only and is kept by value, as are the dicts (built once by a comprehension,
  never updated afterwards). A dict is an association list in insertion order.
\<close>

type_synonym addr = nat
type_synonym entry = "int \<times> nat list"
type_synonym dict = "(codepoint \<times> addr) list"

record Fuzzable =
  path :: pystr
  shared :: "dict option"
  non_zero :: dict

record heap =
  cells :: "entry list"
  objs :: "Fuzzable list"

text \<open>
  The errors: \<open>KeyError\<close> with a character as its key, from a dict of the program;
  \<open>AttributeError\<close>; the \<open>OSError\<close> of the file system; and the \<open>KeyError\<close> of
  \<open>termcolor\<close>, whose key is the colour.
\<close>

datatype error = KeyError codepoint | AttributeError | OSError | KeyError_color pystr

definition empty_heap :: heap where
  "empty_heap = \<lparr>cells = [], objs = []\<rparr>"

definition alloc :: "heap \<Rightarrow> entry \<Rightarrow> addr \<times> heap" where
  "alloc h e = (length (cells h), h\<lparr>cells := cells h @ [e]\<rparr>)"

definition new_obj :: "heap \<Rightarrow> Fuzzable \<Rightarrow> addr \<times> heap" where
  "new_obj h ob = (length (objs h), h\<lparr>objs := objs h @ [ob]\<rparr>)"

definition set_cell :: "heap \<Rightarrow> addr \<Rightarrow> entry \<Rightarrow> heap" where
  "set_cell h a e = h\<lparr>cells := (cells h)[a := e]\<rparr>"

text \<open>\<open>{x: y for x, y in items}\<close>: each item is stored with \<open>d[x] = y\<close>.\<close>

definition dict_comp :: "(codepoint \<times> addr) list \<Rightarrow> dict" where
  "dict_comp items = fold (\<lambda>(x, y) d. AList.update x y d) items []"

text \<open>\<open>xs[:n]\<close>; a negative \<open>n\<close> counts from the end.\<close>

definition slice_to :: "'a list \<Rightarrow> int \<Rightarrow> 'a list" where
  "slice_to xs n =
     (if n < 0 then take (nat (int (length xs) + n)) xs else take (nat n) xs)"

section \<open>The profiler: \<open>Fuzzable.__init__\<close>\<close>

text \<open>\<open>{x: [0, []] for x in printable}\<close>: a new list object for every character.\<close>

fun fresh_counts :: "dict \<Rightarrow> codepoint list \<Rightarrow> heap \<Rightarrow> dict \<times> heap" where
  "fresh_counts d [] h = (d, h)"
| "fresh_counts d (x # xs) h =
     (case alloc h (0, []) of (a, h') \<Rightarrow> fresh_counts (AList.update x a d) xs h')"

text \<open>
  The loop over \<open>enumerate(path)\<close>. \<open>letter_counts[char]\<close> raises \<open>KeyError\<close> for a
  character that is no key; the two statements of the body update the same object.
\<close>

fun count_loop :: "dict \<Rightarrow> (nat \<times> codepoint) list \<Rightarrow> heap \<Rightarrow> error + heap" where
  "count_loop letter_counts [] h = Inr h"
| "count_loop letter_counts ((idx, char) # rest) h =
     (case map_of letter_counts char of
        None \<Rightarrow> Inl (KeyError char)
      | Some a \<Rightarrow>
          let h1 = set_cell h a (fst (cells h ! a) + 1, snd (cells h ! a));
              h2 = set_cell h1 a (fst (cells h1 ! a), snd (cells h1 ! a) @ [idx])
          in count_loop letter_counts rest h2)"

definition Fuzzable_init :: "heap \<Rightarrow> pystr \<Rightarrow> error + (addr \<times> heap)" where
  "Fuzzable_init h p =
     (case fresh_counts [] printable h of
        (letter_counts, h1) \<Rightarrow>
          (case count_loop letter_counts (enumerate 0 p) h1 of
             Inl e \<Rightarrow> Inl e
           | Inr h2 \<Rightarrow>
               Inr (new_obj h2
                 \<lparr>path = p, shared = None,
                  non_zero =
                    dict_comp (filter (\<lambda>(x, y). fst (cells h2 ! y) > 0) letter_counts)\<rparr>)))"

section \<open>The matcher: \<open>compare_dicts\<close>\<close>

text \<open>
  The loop \<open>for key in common_dict\<close>. The result \<open>False\<close> is the early return; the
  heap is returned as the loop left it.
\<close>

fun check_sizes :: "dict \<Rightarrow> dict \<Rightarrow> codepoint list \<Rightarrow> heap \<Rightarrow> error + (bool \<times> heap)" where
  "check_sizes common_dict q [] h = Inr (True, h)"
| "check_sizes common_dict q (key # keys) h =
     (case map_of common_dict key of
        None \<Rightarrow> Inl (KeyError key)
      | Some a \<Rightarrow>
          (case map_of q key of
             None \<Rightarrow> Inl (KeyError key)
           | Some b \<Rightarrow>
               let file_count = fst (cells h ! a);
                   query_count = fst (cells h ! b)
               in if \<not> file_count \<ge> query_count then Inr (False, h)
                  else check_sizes common_dict q keys
                         (set_cell h a (fst (cells h ! a),
                                        slice_to (snd (cells h ! a)) query_count))))"

definition compare_dicts :: "heap \<Rightarrow> addr \<Rightarrow> addr \<Rightarrow> error + (bool \<times> heap)" where
  "compare_dicts h fuzz1 fuzz2 =
     (let common_dict =
            dict_comp (filter (\<lambda>(x, y). map_of (non_zero (objs h ! fuzz2)) x \<noteq> None)
                              (non_zero (objs h ! fuzz1)))
      in if length common_dict \<noteq> length (non_zero (objs h ! fuzz2)) then Inr (False, h)
         else
           (case check_sizes common_dict (non_zero (objs h ! fuzz2)) (map fst common_dict) h of
              Inl e \<Rightarrow> Inl e
            | Inr (False, h') \<Rightarrow> Inr (False, h')
            | Inr (True, h') \<Rightarrow>
                Inr (True,
                     h'\<lparr>objs := (objs h')[fuzz1 := (objs h' ! fuzz1)\<lparr>shared := Some common_dict\<rparr>]\<rparr>)))"

section \<open>Presentation and the caller: \<open>colorize\<close> and \<open>main\<close>\<close>

text \<open>
  The library functions the two call are parameters: \<open>os.path.join\<close>,
  \<open>termcolor.colored\<close>, which raises for a colour it does not know, and \<open>parent\<close>
  and \<open>absolute\<close> of \<open>pathlib.Path\<close>, on the strings of the paths.
\<close>

record lib =
  os_path_join :: "pystr \<Rightarrow> pystr \<Rightarrow> pystr"
  colored :: "codepoint \<Rightarrow> pystr \<Rightarrow> error + pystr"
  Path_parent :: "pystr \<Rightarrow> pystr"
  Path_absolute :: "pystr \<Rightarrow> pystr"

text \<open>
  What \<open>main\<close> sees of the file system: the answers of \<open>path.exists()\<close> and
  \<open>path.is_dir()\<close>, the strings of \<open>path\<close> and \<open>path.absolute()\<close>, and the
  result of \<open>os.scandir(path)\<close>: the entries in enumeration order, or the error it
  raises.
\<close>

record DirEntry =
  entry_name :: pystr
  entry_path :: pystr

record env =
  path_str :: pystr
  path_exists :: bool
  path_is_dir :: bool
  path_absolute :: pystr
  scandir :: "error + DirEntry list"

datatype event = Stderr pystr | Stdout pystr

datatype outcome = Returned | Exited int | Raised error

text \<open>
  The loop of \<open>colorize\<close> over the characters of the absolute path: a character at a
  matching index is passed to \<open>colored\<close>, and the first call that raises ends the loop.
\<close>

fun colorize_loop :: "lib \<Rightarrow> nat list \<Rightarrow> pystr \<Rightarrow> (nat \<times> codepoint) list \<Rightarrow> pystr
    \<Rightarrow> error + pystr" where
  "colorize_loop L matching_indexes color [] output = Inr output"
| "colorize_loop L matching_indexes color ((idx, char) # rest) output =
     (if idx \<in> set matching_indexes
      then (case colored L char color of
              Inl e \<Rightarrow> Inl e
            | Inr t \<Rightarrow> colorize_loop L matching_indexes color rest (output @ t))
      else colorize_loop L matching_indexes color rest (output @ [char]))"

text \<open>
  \<open>for key in fuzzable.shared: for i in fuzzable.shared[key][1]\<close> visits the values of
  the dict in key order. Reading \<open>fuzzable.shared\<close> before it was assigned raises
  \<open>AttributeError\<close>.
\<close>

definition colorize :: "lib \<Rightarrow> heap \<Rightarrow> addr \<Rightarrow> pystr \<Rightarrow> error + pystr" where
  "colorize L h fuzzable color =
     (case shared (objs h ! fuzzable) of
        None \<Rightarrow> Inl AttributeError
      | Some sh \<Rightarrow>
          let matching_indexes = concat (map (\<lambda>(key, a). snd (cells h ! a)) sh);
              dirname = Path_parent L (path (objs h ! fuzzable))
          in (case colorize_loop L matching_indexes color
                     (enumerate 0 (Path_absolute L (path (objs h ! fuzzable)))) [] of
                Inl e \<Rightarrow> Inl e
              | Inr output \<Rightarrow> Inr (os_path_join L dirname output)))"

definition not_exist_msg :: "pystr \<Rightarrow> pystr" where
  "not_exist_msg p = str ''Path '' @ [39] @ p @ [39] @ str '' does not exist.''"

definition not_dir_msg :: "pystr \<Rightarrow> pystr" where
  "not_dir_msg p = str ''Path '' @ [39] @ p @ [39] @ str '' is not a directory.''"

text \<open>The two path checks of \<open>main\<close>: each prints to the error stream and goes on.\<close>

definition path_checks :: "env \<Rightarrow> event list" where
  "path_checks E =
     (if \<not> path_exists E then [Stderr (not_exist_msg (path_str E))] else [])
     @ (if \<not> path_is_dir E then [Stderr (not_dir_msg (path_str E))] else [])"

text \<open>The second loop of \<open>main\<close>, over the entries that are left.\<close>

fun scan :: "lib \<Rightarrow> env \<Rightarrow> addr \<Rightarrow> pystr \<Rightarrow> DirEntry list \<Rightarrow> heap \<Rightarrow> event list
    \<Rightarrow> event list \<times> outcome" where
  "scan L E fuzzable_query color [] h out = (out, Returned)"
| "scan L E fuzzable_query color (file # files) h out =
     (case Fuzzable_init h (os_path_join L (path_absolute E) (entry_name file)) of
        Inl e \<Rightarrow> (out, Raised e)
      | Inr (fuzzable_file, h1) \<Rightarrow>
          (case compare_dicts h1 fuzzable_file fuzzable_query of
             Inl e \<Rightarrow> (out, Raised e)
           | Inr (False, h2) \<Rightarrow> scan L E fuzzable_query color files h2 out
           | Inr (True, h2) \<Rightarrow>
               (case colorize L h2 fuzzable_file color of
                  Inl e \<Rightarrow> (out, Raised e)
                | Inr line \<Rightarrow>
                    scan L E fuzzable_query color files h2 (out @ [Stdout line]))))"

definition main :: "lib \<Rightarrow> env \<Rightarrow> heap \<Rightarrow> pystr \<Rightarrow> pystr \<Rightarrow> event list \<times> outcome" where
  "main L E h query color =
     (case scandir E of
        Inl e \<Rightarrow> (path_checks E, Raised e)
      | Inr files_iter \<Rightarrow>
          if length query = 0
          then (path_checks E @ map (\<lambda>file. Stdout (entry_path file)) files_iter, Exited 0)
          else
            (case Fuzzable_init h query of
               Inl e \<Rightarrow> (path_checks E, Raised e)
             | Inr (fuzzable_query, h1) \<Rightarrow>
                 scan L E fuzzable_query color files_iter h1 (path_checks E)))"

text \<open>
  The last line of the script calls \<open>main\<close> with \<open>args.color[0]\<close>. The option
  \<open>-c\<close> takes one name (\<open>nargs=1\<close>), which \<open>argparse\<close> stores as a list of one
  string; without the option \<open>args.color\<close> is the default, the string \<open>red\<close>, and
  its element 0 is the string \<open>r\<close>.
\<close>

definition color_argument :: "pystr option \<Rightarrow> pystr" where
  "color_argument given = (case given of Some name \<Rightarrow> name | None \<Rightarrow> take 1 (str ''red''))"

section \<open>Specification vocabulary\<close>

text \<open>The positions of a character in a string, counted from \<open>n\<close>, in increasing order.\<close>

definition occ :: "nat \<Rightarrow> pystr \<Rightarrow> codepoint \<Rightarrow> nat list" where
  "occ n s c = map fst (filter (\<lambda>(i, x). x = c) (enumerate n s))"

text \<open>The count and the position list a profile records for a character.\<close>

definition count_of :: "heap \<Rightarrow> addr \<Rightarrow> codepoint \<Rightarrow> int option" where
  "count_of h f c = map_option (\<lambda>a. fst (cells h ! a)) (map_of (non_zero (objs h ! f)) c)"

definition positions_of :: "heap \<Rightarrow> addr \<Rightarrow> codepoint \<Rightarrow> nat list option" where
  "positions_of h f c = map_option (\<lambda>a. snd (cells h ! a)) (map_of (non_zero (objs h ! f)) c)"

text \<open>The positions the \<open>shared\<close> dict of an object marks for a character.\<close>

definition shared_positions :: "heap \<Rightarrow> addr \<Rightarrow> codepoint \<Rightarrow> nat list option" where
  "shared_positions h f c =
     (case shared (objs h ! f) of
        None \<Rightarrow> None
      | Some sh \<Rightarrow> map_option (\<lambda>a. snd (cells h ! a)) (map_of sh c))"

text \<open>
  The invariant of the data model, for one entry and for the profile of an object:
  positions strictly increasing, as many as the count. A profile is a dict (distinct
  keys) of distinct entry objects that exist.
\<close>

definition entry_inv :: "entry \<Rightarrow> bool" where
  "entry_inv e \<longleftrightarrow> sorted_wrt (<) (snd e) \<and> int (length (snd e)) = fst e"

definition wf_profile :: "heap \<Rightarrow> addr \<Rightarrow> bool" where
  "wf_profile h f \<longleftrightarrow>
     f < length (objs h) \<and>
     distinct (map fst (non_zero (objs h ! f))) \<and>
     distinct (map snd (non_zero (objs h ! f))) \<and>
     list_all (\<lambda>(c, a). a < length (cells h)) (non_zero (objs h ! f))"

definition profile_inv :: "heap \<Rightarrow> addr \<Rightarrow> bool" where
  "profile_inv h f \<longleftrightarrow>
     wf_profile h f \<and> list_all (\<lambda>(c, a). entry_inv (cells h ! a)) (non_zero (objs h ! f))"

text \<open>What a comparison leaves of the invariant: at most as many positions as the count.\<close>

definition entry_weak_inv :: "entry \<Rightarrow> bool" where
  "entry_weak_inv e \<longleftrightarrow> sorted_wrt (<) (snd e) \<and> int (length (snd e)) \<le> fst e"

definition profile_weak_inv :: "heap \<Rightarrow> addr \<Rightarrow> bool" where
  "profile_weak_inv h f \<longleftrightarrow>
     wf_profile h f \<and> list_all (\<lambda>(c, a). entry_weak_inv (cells h ! a)) (non_zero (objs h ! f))"

text \<open>
  Object \<open>f\<close> of heap \<open>h\<close> is the profile of the string \<open>s\<close>, as \<open>__init__\<close> leaves
  it: the characters of \<open>s\<close> in the order of \<open>printable\<close>, each with its count and its
  positions.
\<close>

definition is_profile :: "heap \<Rightarrow> addr \<Rightarrow> pystr \<Rightarrow> bool" where
  "is_profile h f s \<longleftrightarrow>
     wf_profile h f \<and> path (objs h ! f) = s \<and> set s \<subseteq> set printable \<and>
     map fst (non_zero (objs h ! f)) = filter (\<lambda>c. c \<in> set s) printable \<and>
     list_all (\<lambda>(c, a). cells h ! a = (int (count_list s c), occ 0 s c))
       (non_zero (objs h ! f))"

text \<open>
  Containment as the specification words it, on the strings: every character of the
  query occurs in the candidate at least as often. The indices the matcher marks, and the
  line \<open>colorize\<close> makes of them, or the error \<open>colored\<close> raises.
\<close>

definition contains :: "pystr \<Rightarrow> pystr \<Rightarrow> bool" where
  "contains s q \<longleftrightarrow> list_all (\<lambda>c. count_list q c \<le> count_list s c) q"

definition matched_indexes :: "pystr \<Rightarrow> pystr \<Rightarrow> nat list" where
  "matched_indexes s q =
     concat (map (\<lambda>c. take (count_list q c) (occ 0 s c))
                 (filter (\<lambda>c. c \<in> set q) (filter (\<lambda>c. c \<in> set s) printable)))"

definition highlight :: "lib \<Rightarrow> pystr \<Rightarrow> pystr \<Rightarrow> pystr \<Rightarrow> error + pystr" where
  "highlight L color q s =
     (case colorize_loop L (matched_indexes s q) color (enumerate 0 (Path_absolute L s)) [] of
        Inl e \<Rightarrow> Inl e
      | Inr output \<Rightarrow> Inr (os_path_join L (Path_parent L s) output))"

definition candidate :: "lib \<Rightarrow> env \<Rightarrow> DirEntry \<Rightarrow> pystr" where
  "candidate L E file = os_path_join L (path_absolute E) (entry_name file)"

text \<open>The sum of the counts a profile records.\<close>

definition total_count :: "heap \<Rightarrow> addr \<Rightarrow> int" where
  "total_count h f = sum_list (map (\<lambda>(c, a). fst (cells h ! a)) (non_zero (objs h ! f)))"

text \<open>
  Two profiles are separate when they are different objects and share no entry object, as
  any two objects that two calls of the constructor made.
\<close>

definition separate :: "heap \<Rightarrow> addr \<Rightarrow> addr \<Rightarrow> bool" where
  "separate h f1 f2 \<longleftrightarrow>
     f1 \<noteq> f2 \<and>
     list_all (\<lambda>(c, a). a \<notin> snd ` set (non_zero (objs h ! f1))) (non_zero (objs h ! f2))"

section \<open>Examples\<close>

text \<open>
  The heap after \<open>Fuzzable("aab")\<close>, \<open>Fuzzable("ab")\<close> and \<open>Fuzzable("")\<close>, to
  what is reachable: when \<open>__init__\<close> returns, \<open>letter_counts\<close> and the entries
  with count 0 are garbage. Object 0 is the candidate, object 1 the query, object 2 the
  empty query; \<open>a\<close> is 97, \<open>b\<close> is 98.
\<close>

definition ex_heap :: heap where
  "ex_heap =
     \<lparr>cells = [(2, [0, 1]), (1, [2]), (1, [0]), (1, [1])],
      objs = [\<lparr>path = str ''aab'', shared = None, non_zero = [(97, 0), (98, 1)]\<rparr>,
              \<lparr>path = str ''ab'', shared = None, non_zero = [(97, 2), (98, 3)]\<rparr>,
              \<lparr>path = [], shared = None, non_zero = []\<rparr>]\<rparr>"

text \<open>The same heap after \<open>compare_dicts\<close> of object 0 against object 1.\<close>

definition ex_heap_matched :: heap where
  "ex_heap_matched =
     \<lparr>cells = [(2, [0]), (1, [2]), (1, [0]), (1, [1])],
      objs = [\<lparr>path = str ''aab'', shared = Some [(97, 0), (98, 1)],
               non_zero = [(97, 0), (98, 1)]\<rparr>,
              \<lparr>path = str ''ab'', shared = None, non_zero = [(97, 2), (98, 3)]\<rparr>,
              \<lparr>path = [], shared = None, non_zero = []\<rparr>]\<rparr>"

text \<open>
  The heap \<open>ex_heap_matched\<close> after \<open>Fuzzable("aa")\<close>, a second query, was made:
  object 3.
\<close>

definition ex_heap_compared :: heap where
  "ex_heap_compared =
     \<lparr>cells = [(2, [0]), (1, [2]), (1, [0]), (1, [1]), (2, [0, 1])],
      objs = [\<lparr>path = str ''aab'', shared = Some [(97, 0), (98, 1)],
               non_zero = [(97, 0), (98, 1)]\<rparr>,
              \<lparr>path = str ''ab'', shared = None, non_zero = [(97, 2), (98, 3)]\<rparr>,
              \<lparr>path = [], shared = None, non_zero = []\<rparr>,
              \<lparr>path = str ''aa'', shared = None, non_zero = [(97, 4)]\<rparr>]\<rparr>"

text \<open>
  Stand-ins for the library, for the examples: the POSIX \<open>os.path.join\<close> of two
  strings (\<open>/\<close> is 47), the parent as the text before the last \<open>/\<close>, paths that
  are absolute already, and a \<open>colored\<close> that puts the character between brackets
  for the colour names the command line offers as choices, and raises for any other.
\<close>

definition ex_colors :: "pystr list" where
  "ex_colors =
     map str
       [''black'', ''grey'', ''red'', ''green'', ''yellow'', ''blue'', ''magenta'', ''cyan'',
        ''light_grey'', ''dark_grey'', ''light_red'', ''light_green'', ''light_yellow'',
        ''light_blue'', ''light_magenta'', ''light_cyan'', ''white'']"

definition ex_lib :: lib where
  "ex_lib =
     \<lparr>os_path_join =
        (\<lambda>a b. if b \<noteq> [] \<and> hd b = 47 then b
               else if a = [] \<or> last a = 47 then a @ b
               else a @ [47] @ b),
      colored =
        (\<lambda>c color. if color \<in> set ex_colors then Inr [91, c, 93]
                    else Inl (KeyError_color color)),
      Path_parent = (\<lambda>p. rev (drop 1 (dropWhile (\<lambda>c. c \<noteq> 47) (rev p)))),
      Path_absolute = (\<lambda>p. p)\<rparr>"

text \<open>
  A directory \<open>/d\<close> that exists, with the entries \<open>a\<close> and e-acute (code point 233),
  and one with the three files of the end-to-end example of the specification.
\<close>

definition ex_entries :: "DirEntry list" where
  "ex_entries =
     [\<lparr>entry_name = str ''a'', entry_path = str ''/d/a''\<rparr>,
      \<lparr>entry_name = [233], entry_path = str ''/d/'' @ [233]\<rparr>]"

definition ex_env :: env where
  "ex_env =
     \<lparr>path_str = str ''/d'', path_exists = True, path_is_dir = True,
      path_absolute = str ''/d'', scandir = Inr ex_entries\<rparr>"

definition ex_fruit :: "DirEntry list" where
  "ex_fruit =
     [\<lparr>entry_name = str ''apple.txt'', entry_path = str ''/d/apple.txt''\<rparr>,
      \<lparr>entry_name = str ''banana.txt'', entry_path = str ''/d/banana.txt''\<rparr>,
      \<lparr>entry_name = str ''grape.txt'', entry_path = str ''/d/grape.txt''\<rparr>]"

definition ex_fruit_env :: env where
  "ex_fruit_env =
     \<lparr>path_str = str ''/d'', path_exists = True, path_is_dir = True,
      path_absolute = str ''/d'', scandir = Inr ex_fruit\<rparr>"

section \<open>Dicts, the alphabet and allocation\<close>

lemma update_fresh: "k \<notin> fst ` set d \<Longrightarrow> AList.update k v d = d @ [(k, v)]"
  by (induction d) auto

lemma fold_update_distinct:
  "distinct (map fst (d @ xs)) \<Longrightarrow> fold (\<lambda>(x, y) d. AList.update x y d) xs d = d @ xs"
proof (induction xs arbitrary: d)
  case Nil
  then show ?case by simp
next
  case (Cons p xs)
  obtain k v where p: "p = (k, v)" by (cases p)
  from Cons.prems p have fresh: "k \<notin> fst ` set d" by auto
  from Cons.prems p have "distinct (map fst ((d @ [(k, v)]) @ xs))" by auto
  from Cons.IH [OF this] show ?case by (simp add: p update_fresh [OF fresh])
qed

lemma dict_comp_distinct: "distinct (map fst xs) \<Longrightarrow> dict_comp xs = xs"
  using fold_update_distinct [of "[]" xs] by (simp add: dict_comp_def)

lemma set_printable: "c \<in> set printable \<longleftrightarrow> (32 \<le> c \<and> c < 127) \<or> (9 \<le> c \<and> c \<le> 13)"
  unfolding printable_def
  by (simp only: set_append set_upt Un_iff atLeastLessThan_iff list.set insert_iff empty_iff)
    arith

lemma distinct_printable: "distinct printable"
  unfolding printable_def
  by (simp only: distinct_append distinct_upt set_append set_upt Int_Un_distrib Int_Un_distrib2)
    (auto simp del: upt_rec_numeral)

lemma length_printable: "length printable = 100"
  unfolding printable_def by (simp del: upt_rec_numeral)

lemma fresh_counts_eq:
  "distinct xs \<Longrightarrow> set xs \<inter> fst ` set d = {} \<Longrightarrow>
   fresh_counts d xs h =
     (d @ zip xs [length (cells h)..<length (cells h) + length xs],
      h\<lparr>cells := cells h @ replicate (length xs) (0, [])\<rparr>)"
proof (induction xs arbitrary: d h)
  case Nil
  then show ?case by simp
next
  case (Cons x xs)
  from Cons.prems have fresh: "x \<notin> fst ` set d" by auto
  let ?h = "h\<lparr>cells := cells h @ [(0, [])]\<rparr>"
  let ?d = "d @ [(x, length (cells h))]"
  from Cons.prems have "distinct xs" "set xs \<inter> fst ` set ?d = {}" by auto
  from Cons.IH [OF this, of ?h]
  have IH: "fresh_counts ?d xs ?h =
     (?d @ zip xs [Suc (length (cells h))..<Suc (length (cells h)) + length xs],
      h\<lparr>cells := (cells h @ [(0, [])]) @ replicate (length xs) (0, [])\<rparr>)"
    by simp
  have upt: "[length (cells h)..<length (cells h) + length (x # xs)] =
      length (cells h) # [Suc (length (cells h))..<Suc (length (cells h)) + length xs]"
  proof -
    have "length (cells h) < length (cells h) + length (x # xs)" by simp
    from upt_conv_Cons [OF this] show ?thesis by (simp del: upt_Suc)
  qed
  have "fresh_counts d (x # xs) h = fresh_counts ?d xs ?h"
    by (simp add: alloc_def update_fresh [OF fresh])
  also note IH
  finally show ?case
    unfolding upt by simp
qed

section \<open>The counting loop\<close>

lemma occ_Nil: "occ n [] c = []"
  by (simp add: occ_def)

lemma occ_Cons: "occ n (x # xs) c = (if x = c then [n] else []) @ occ (Suc n) xs c"
  by (simp add: occ_def)

lemma length_occ: "length (occ n s c) = count_list s c"
  by (induction s arbitrary: n) (simp_all add: occ_Nil occ_Cons)

lemma set_occ: "set (occ n s c) \<subseteq> {n..<n + length s}"
  by (auto simp: occ_def in_set_enumerate_eq)

lemma sorted_occ: "sorted_wrt (<) (occ n s c)"
proof -
  have "sorted_wrt (<) (map fst (enumerate n s))"
    by simp
  then have "sorted_wrt (\<lambda>p q. fst p < fst q) (enumerate n s)"
    by (simp only: sorted_wrt_map)
  then have "sorted_wrt (\<lambda>p q. fst p < fst q) (filter (\<lambda>(i, x). x = c) (enumerate n s))"
    by (rule sorted_wrt_filter)
  then show ?thesis by (simp add: occ_def sorted_wrt_map)
qed

lemma count_list_pos: "0 < count_list s c \<longleftrightarrow> c \<in> set s"
  using count_list_0_iff [of s c] by auto

lemma snd_inj: "distinct (map snd d) \<Longrightarrow> (c, a) \<in> set d \<Longrightarrow> (c', a) \<in> set d \<Longrightarrow> c = c'"
proof -
  assume "distinct (map snd d)" and 1: "(c, a) \<in> set d" and 2: "(c', a) \<in> set d"
  then have "inj_on snd (set d)" by (simp add: distinct_map)
  from inj_onD [OF this _ 1 2] show "c = c'" by simp
qed

lemma count_loop_fail:
  "\<not> set s \<subseteq> fst ` set d \<Longrightarrow>
   \<exists>c. c \<in> set s \<and> c \<notin> fst ` set d \<and> count_loop d (enumerate n s) h = Inl (KeyError c)"
proof (induction s arbitrary: n h)
  case Nil
  then show ?case by simp
next
  case (Cons x xs)
  show ?case
  proof (cases "map_of d x")
    case None
    then have "x \<notin> fst ` set d" by (simp add: map_of_eq_None_iff)
    with None show ?thesis by auto
  next
    case (Some a)
    then have "x \<in> fst ` set d" by (metis map_of_eq_None_iff option.distinct(1))
    with Cons.prems have "\<not> set xs \<subseteq> fst ` set d" by auto
    from Cons.IH [OF this, of "Suc n"
        "set_cell (set_cell h a (fst (cells h ! a) + 1, snd (cells h ! a))) a
           (fst (cells (set_cell h a (fst (cells h ! a) + 1, snd (cells h ! a))) ! a),
            snd (cells (set_cell h a (fst (cells h ! a) + 1, snd (cells h ! a))) ! a) @ [n])"]
    obtain c where "c \<in> set xs" "c \<notin> fst ` set d"
      "count_loop d (enumerate n (x # xs)) h = Inl (KeyError c)"
      using Some by (auto simp: Let_def)
    then show ?thesis by auto
  qed
qed

lemma count_loop_ok:
  assumes "distinct (map snd d)" and "\<forall>a\<in>snd ` set d. a < length (cells h)"
    and "set s \<subseteq> fst ` set d"
  shows "\<exists>h'. count_loop d (enumerate n s) h = Inr h' \<and> objs h' = objs h \<and>
           length (cells h') = length (cells h) \<and>
           (\<forall>c a. map_of d c = Some a \<longrightarrow>
              cells h' ! a = (fst (cells h ! a) + int (count_list s c), snd (cells h ! a) @ occ n s c)) \<and>
           (\<forall>a. a \<notin> snd ` set d \<longrightarrow> cells h' ! a = cells h ! a)"
  using assms(2,3)
proof (induction s arbitrary: n h)
  case Nil
  then show ?case by (simp add: occ_Nil)
next
  case (Cons x xs)
  from Cons.prems(2) obtain a0 where a0: "map_of d x = Some a0"
    by (cases "map_of d x") (auto simp: map_of_eq_None_iff)
  then have in_d: "(x, a0) \<in> set d" by (rule map_of_SomeD)
  then have "a0 \<in> snd ` set d" by force
  with Cons.prems(1) have valid: "a0 < length (cells h)" by blast
  define h2 where "h2 = set_cell h a0 (fst (cells h ! a0) + 1, snd (cells h ! a0) @ [n])"
  have step: "count_loop d (enumerate n (x # xs)) h = count_loop d (enumerate (Suc n) xs) h2"
    using a0 valid by (simp add: h2_def set_cell_def Let_def)
  have len2: "length (cells h2) = length (cells h)" and objs2: "objs h2 = objs h"
    by (simp_all add: h2_def set_cell_def)
  have at_a0: "cells h2 ! a0 = (fst (cells h ! a0) + 1, snd (cells h ! a0) @ [n])"
    using valid by (simp add: h2_def set_cell_def)
  have other: "\<And>a. a \<noteq> a0 \<Longrightarrow> cells h2 ! a = cells h ! a"
    by (simp add: h2_def set_cell_def)
  from Cons.prems len2 have "\<forall>a\<in>snd ` set d. a < length (cells h2)" "set xs \<subseteq> fst ` set d"
    by auto
  from Cons.IH [OF this, of "Suc n"] obtain h' where
    run: "count_loop d (enumerate (Suc n) xs) h2 = Inr h'" and
    objs': "objs h' = objs h2" and len': "length (cells h') = length (cells h2)" and
    upd: "\<And>c a. map_of d c = Some a \<Longrightarrow>
            cells h' ! a = (fst (cells h2 ! a) + int (count_list xs c), snd (cells h2 ! a) @ occ (Suc n) xs c)" and
    frame: "\<And>a. a \<notin> snd ` set d \<Longrightarrow> cells h' ! a = cells h2 ! a"
    by blast
  have "cells h' ! a = (fst (cells h ! a) + int (count_list (x # xs) c), snd (cells h ! a) @ occ n (x # xs) c)"
    if ca: "map_of d c = Some a" for c a
  proof (cases "c = x")
    case True
    with ca a0 have "a = a0" by simp
    with upd [OF ca] at_a0 True show ?thesis by (simp add: occ_Cons)
  next
    case False
    from ca have "(c, a) \<in> set d" by (rule map_of_SomeD)
    with in_d assms(1) False have "a \<noteq> a0" by (auto dest: snd_inj)
    with upd [OF ca] other False show ?thesis by (simp add: occ_Cons)
  qed
  moreover have "cells h' ! a = cells h ! a" if "a \<notin> snd ` set d" for a
  proof -
    from that \<open>a0 \<in> snd ` set d\<close> have "a \<noteq> a0" by auto
    with frame [OF that] other show ?thesis by simp
  qed
  ultimately show ?case
    using step run objs' len' len2 objs2 by simp
qed

section \<open>What \<open>__init__\<close> returns\<close>

lemma map_fst_filter_zip:
  "length xs = length ys \<Longrightarrow> map fst (filter (\<lambda>(c, a). P c) (zip xs ys)) = filter P xs"
  by (induction xs ys rule: list_induct2) auto

lemma Fuzzable_init_fail:
  assumes "\<not> set s \<subseteq> set printable"
  shows "\<exists>c. c \<in> set s \<and> c \<notin> set printable \<and> Fuzzable_init h s = Inl (KeyError c)"
proof -
  define N where "N = length (cells h)"
  define lc where "lc = zip printable [N..<N + length printable]"
  define h1 where "h1 = h\<lparr>cells := cells h @ replicate (length printable) (0, [])\<rparr>"
  have fresh: "fresh_counts [] printable h = (lc, h1)"
    using fresh_counts_eq [OF distinct_printable, of "[]" h] by (simp add: lc_def h1_def N_def)
  have keys: "fst ` set lc = set printable"
    using map_fst_zip [of printable "[N..<N + length printable]"]
    by (simp add: lc_def flip: set_map)
  with assms have "\<not> set s \<subseteq> fst ` set lc" by simp
  from count_loop_fail [OF this, of 0 h1] keys fresh show ?thesis
    by (auto simp: Fuzzable_init_def)
qed

lemma Fuzzable_init_ok:
  assumes "set s \<subseteq> set printable"
  shows "\<exists>ob cs. Fuzzable_init h s =
             Inr (length (objs h), \<lparr>cells = cells h @ cs, objs = objs h @ [ob]\<rparr>) \<and>
           is_profile \<lparr>cells = cells h @ cs, objs = objs h @ [ob]\<rparr> (length (objs h)) s \<and>
           shared ob = None \<and>
           (\<forall>a\<in>snd ` set (non_zero ob). length (cells h) \<le> a)"
proof -
  define N where "N = length (cells h)"
  define lc where "lc = zip printable [N..<N + length printable]"
  define h1 where "h1 = h\<lparr>cells := cells h @ replicate (length printable) (0, [])\<rparr>"
  have fresh: "fresh_counts [] printable h = (lc, h1)"
    using fresh_counts_eq [OF distinct_printable, of "[]" h] by (simp add: lc_def h1_def N_def)
  have fst_lc: "map fst lc = printable" and snd_lc: "map snd lc = [N..<N + length printable]"
    by (simp_all add: lc_def)
  have keys: "fst ` set lc = set printable" and addrs: "snd ` set lc = {N..<N + length printable}"
    using fst_lc snd_lc by (simp_all flip: set_map)
  have dk: "distinct (map fst lc)" and da: "distinct (map snd lc)"
    by (simp_all add: fst_lc snd_lc distinct_printable)
  have valid: "\<forall>a\<in>snd ` set lc. a < length (cells h1)"
    by (simp add: addrs h1_def N_def)
  from assms keys have sub: "set s \<subseteq> fst ` set lc" by simp
  from count_loop_ok [OF da valid sub, of 0] obtain h2 where
    run: "count_loop lc (enumerate 0 s) h1 = Inr h2" and
    objs2: "objs h2 = objs h1" and len2: "length (cells h2) = length (cells h1)" and
    upd: "\<And>c a. map_of lc c = Some a \<Longrightarrow>
            cells h2 ! a = (fst (cells h1 ! a) + int (count_list s c), snd (cells h1 ! a) @ occ 0 s c)" and
    frame: "\<And>a. a \<notin> snd ` set lc \<Longrightarrow> cells h2 ! a = cells h1 ! a"
    by blast
  have cell: "cells h2 ! a = (int (count_list s c), occ 0 s c)" if "(c, a) \<in> set lc" for c a
  proof -
    from that dk have m: "map_of lc c = Some a" by simp
    from that addrs have "N \<le> a" "a < N + length printable" by force+
    then have "cells h1 ! a = (0, [])"
      by (simp add: h1_def N_def nth_append)
    with upd [OF m] show ?thesis by simp
  qed
  define nz where "nz = filter (\<lambda>(c, a). c \<in> set s) lc"
  have "filter (\<lambda>(x, y). fst (cells h2 ! y) > 0) lc = nz"
    unfolding nz_def by (rule filter_cong) (auto simp: cell count_list_pos)
  moreover have dnz: "distinct (map fst nz)"
    unfolding nz_def using dk by (rule distinct_map_filter)
  ultimately have comp: "dict_comp (filter (\<lambda>(x, y). fst (cells h2 ! y) > 0) lc) = nz"
    by (simp add: dict_comp_distinct)
  define ob where "ob = \<lparr>path = s, shared = None, non_zero = nz\<rparr>"
  define cs where "cs = drop N (cells h2)"
  have pre: "take N (cells h2) = cells h"
  proof (rule nth_equalityI)
    show "length (take N (cells h2)) = length (cells h)"
      by (simp add: len2 h1_def N_def)
  next
    fix i assume "i < length (take N (cells h2))"
    then have i: "i < N" by simp
    then have "i \<notin> snd ` set lc" by (simp add: addrs)
    from frame [OF this] i show "take N (cells h2) ! i = cells h ! i"
      by (simp add: h1_def N_def nth_append)
  qed
  have h2_eq: "h2 = \<lparr>cells = cells h @ cs, objs = objs h\<rparr>"
  proof -
    have "cells h2 = take N (cells h2) @ drop N (cells h2)" by simp
    then have "cells h2 = cells h @ cs" by (simp only: pre cs_def)
    moreover have "objs h2 = objs h" by (simp add: objs2 h1_def)
    ultimately show ?thesis by (cases h2) simp
  qed
  let ?h' = "\<lparr>cells = cells h @ cs, objs = objs h @ [ob]\<rparr>"
  have "Fuzzable_init h s = Inr (new_obj h2 ob)"
    by (simp add: Fuzzable_init_def fresh run comp ob_def)
  moreover have "new_obj h2 ob = (length (objs h), ?h')"
    by (simp add: new_obj_def h2_eq)
  ultimately have res: "Fuzzable_init h s = Inr (length (objs h), ?h')"
    by simp
  have cells': "cells ?h' = cells h2" by (simp add: h2_eq)
  have nz_sub: "set nz \<subseteq> set lc" by (auto simp: nz_def)
  have "wf_profile ?h' (length (objs h))"
    unfolding wf_profile_def
  proof (intro conjI)
    show "length (objs h) < length (objs ?h')" by simp
    show "distinct (map fst (non_zero (objs ?h' ! length (objs h))))"
      using dnz by (simp add: ob_def)
    show "distinct (map snd (non_zero (objs ?h' ! length (objs h))))"
      using distinct_map_filter [OF da, of "\<lambda>(c, a). c \<in> set s"] by (simp add: ob_def nz_def)
    show "list_all (\<lambda>(c, a). a < length (cells ?h')) (non_zero (objs ?h' ! length (objs h)))"
      unfolding cells' using nz_sub valid len2
      by (fastforce simp: ob_def list_all_iff)
  qed
  moreover have "map fst nz = filter (\<lambda>c. c \<in> set s) printable"
    unfolding nz_def lc_def by (rule map_fst_filter_zip) simp
  moreover have "list_all (\<lambda>(c, a). cells ?h' ! a = (int (count_list s c), occ 0 s c)) nz"
    unfolding cells' using nz_sub cell by (auto simp: list_all_iff)
  ultimately have "is_profile ?h' (length (objs h)) s"
    using assms by (simp add: is_profile_def ob_def)
  moreover have "\<forall>a\<in>snd ` set (non_zero ob). length (cells h) \<le> a"
    using nz_sub addrs by (force simp: ob_def N_def)
  ultimately show ?thesis using res by (auto simp: ob_def)
qed

section \<open>The profiler fails exactly on characters outside the alphabet\<close>

text \<open>
  Claim C6. Profiling a string that has a character outside \<open>printable\<close> raises the
  lookup failure \<open>KeyError\<close> for such a character (the profiler does not skip it),
  and profiling a string of alphabet characters only returns a profile, from any heap.
\<close>

theorem Fuzzable_init_KeyError_iff:
  "(set s \<subseteq> set printable \<longrightarrow> (\<exists>f h'. Fuzzable_init h s = Inr (f, h'))) \<and>
   (\<not> set s \<subseteq> set printable \<longrightarrow>
      (\<exists>c. c \<in> set s \<and> c \<notin> set printable \<and> Fuzzable_init h s = Inl (KeyError c)))"
proof (intro conjI impI)
  assume "set s \<subseteq> set printable"
  from Fuzzable_init_ok [OF this, of h] show "\<exists>f h'. Fuzzable_init h s = Inr (f, h')"
    by blast
next
  assume "\<not> set s \<subseteq> set printable"
  then show "\<exists>c. c \<in> set s \<and> c \<notin> set printable \<and> Fuzzable_init h s = Inl (KeyError c)"
    by (rule Fuzzable_init_fail)
qed

text \<open>Witness for C6: \<open>a.txt\<close> is profiled, and code point 233 is refused.\<close>

theorem Fuzzable_init_KeyError_iff_witness:
  "(\<exists>f h'. Fuzzable_init empty_heap (str ''a.txt'') = Inr (f, h')) \<and>
   Fuzzable_init empty_heap (str ''a'' @ [233]) = Inl (KeyError 233)"
proof
  have "set (str ''a.txt'') \<subseteq> set printable"
    by (simp add: str_def set_printable)
  with Fuzzable_init_KeyError_iff [of "str ''a.txt''" empty_heap]
  show "\<exists>f h'. Fuzzable_init empty_heap (str ''a.txt'') = Inr (f, h')" by blast
next
  have "\<not> set (str ''a'' @ [233]) \<subseteq> set printable"
    by (simp add: str_def set_printable)
  with Fuzzable_init_KeyError_iff [of "str ''a'' @ [233]" empty_heap]
  obtain c where "c \<in> set (str ''a'' @ [233])" "c \<notin> set printable"
    "Fuzzable_init empty_heap (str ''a'' @ [233]) = Inl (KeyError c)" by blast
  moreover from this(1,2) have "c = 233" by (auto simp: str_def set_printable)
  ultimately show "Fuzzable_init empty_heap (str ''a'' @ [233]) = Inl (KeyError 233)" by simp
qed

section \<open>The size-check loop\<close>

lemma slice_to_take: "\<exists>m. slice_to xs n = take m xs"
  by (auto simp: slice_to_def)

lemma slice_to_nonneg: "0 \<le> n \<Longrightarrow> slice_to xs n = take (nat n) xs"
  by (simp add: slice_to_def)

lemma cells_set_cell:
  "cells (set_cell h a e) ! x = (if x = a \<and> a < length (cells h) then e else cells h ! x)"
  by (cases "a < length (cells h)") (auto simp: set_cell_def nth_list_update list_update_beyond)

lemma take_self_ex: "\<exists>m. xs = take m xs"
  by (rule exI [of _ "length xs"]) simp

lemma objs_set_cell: "objs (set_cell h a e) = objs h"
  by (simp add: set_cell_def)

lemma length_cells_set_cell: "length (cells (set_cell h a e)) = length (cells h)"
  by (simp add: set_cell_def)

lemma fst_cells_set_cell:
  "fst (cells (set_cell h a (fst (cells h ! a), ps)) ! x) = fst (cells h ! x)"
  by (simp add: cells_set_cell)

lemma check_sizes_frame:
  "check_sizes cd q ks h = Inr (b, h') \<Longrightarrow>
   objs h' = objs h \<and> length (cells h') = length (cells h) \<and>
   (\<forall>a. fst (cells h' ! a) = fst (cells h ! a)) \<and>
   (\<forall>a. \<exists>m. snd (cells h' ! a) = take m (snd (cells h ! a))) \<and>
   (\<forall>a. (\<forall>k\<in>set ks. map_of cd k \<noteq> Some a) \<longrightarrow> cells h' ! a = cells h ! a)"
proof (induction ks arbitrary: h)
  case Nil
  then have "h' = h" by simp
  then show ?case by (simp add: take_self_ex)
next
  case (Cons k ks)
  from Cons.prems obtain a c where a: "map_of cd k = Some a" and c: "map_of q k = Some c"
    by (auto split: option.splits)
  show ?case
  proof (cases "fst (cells h ! c) \<le> fst (cells h ! a)")
    case False
    with Cons.prems a c have "h' = h" by (simp add: Let_def)
    then show ?thesis by (simp add: take_self_ex)
  next
    case True
    define h1 where
      "h1 = set_cell h a (fst (cells h ! a), slice_to (snd (cells h ! a)) (fst (cells h ! c)))"
    from Cons.prems a c True have "check_sizes cd q ks h1 = Inr (b, h')"
      by (simp add: Let_def h1_def)
    from Cons.IH [OF this] have
      o: "objs h' = objs h1" and l: "length (cells h') = length (cells h1)" and
      f: "\<And>x. fst (cells h' ! x) = fst (cells h1 ! x)" and
      t: "\<And>x. \<exists>m. snd (cells h' ! x) = take m (snd (cells h1 ! x))" and
      u: "\<And>x. (\<forall>k\<in>set ks. map_of cd k \<noteq> Some x) \<Longrightarrow> cells h' ! x = cells h1 ! x"
      by blast+
    have "\<exists>m. snd (cells h' ! x) = take m (snd (cells h ! x))" for x
    proof -
      from t obtain m where m: "snd (cells h' ! x) = take m (snd (cells h1 ! x))" by blast
      obtain m' where "snd (cells h1 ! x) = take m' (snd (cells h ! x))"
      proof (cases "x = a \<and> a < length (cells h)")
        case True
        with slice_to_take [of "snd (cells h ! a)" "fst (cells h ! c)"] that show ?thesis
          by (auto simp: h1_def cells_set_cell)
      next
        case False
        then have "snd (cells h1 ! x) = take (length (snd (cells h ! x))) (snd (cells h ! x))"
          by (auto simp: h1_def cells_set_cell)
        with that show ?thesis by blast
      qed
      with m have "snd (cells h' ! x) = take (min m m') (snd (cells h ! x))" by simp
      then show ?thesis ..
    qed
    moreover have "cells h' ! x = cells h ! x" if "\<forall>k'\<in>set (k # ks). map_of cd k' \<noteq> Some x" for x
    proof -
      from that a have "x \<noteq> a" by auto
      moreover from that have "\<forall>k\<in>set ks. map_of cd k \<noteq> Some x" by simp
      ultimately show ?thesis using u [of x] by (simp add: h1_def cells_set_cell)
    qed
    moreover have "fst (cells h' ! x) = fst (cells h ! x)" for x
      using f [of x] by (simp add: h1_def fst_cells_set_cell)
    ultimately show ?thesis
      using o l by (simp add: h1_def objs_set_cell length_cells_set_cell)
  qed
qed

lemma check_sizes_verdict:
  assumes "\<forall>k\<in>set ks. map_of cd k \<noteq> None \<and> map_of q k \<noteq> None"
  shows "\<exists>h'. check_sizes cd q ks h =
           Inr (list_all (\<lambda>k. fst (cells h ! the (map_of q k)) \<le> fst (cells h ! the (map_of cd k))) ks, h')"
  using assms
proof (induction ks arbitrary: h)
  case Nil
  then show ?case by simp
next
  case (Cons k ks)
  from Cons.prems obtain a c where a: "map_of cd k = Some a" and c: "map_of q k = Some c"
    by auto
  show ?case
  proof (cases "fst (cells h ! c) \<le> fst (cells h ! a)")
    case False
    with a c show ?thesis by (simp add: Let_def)
  next
    case True
    define h1 where
      "h1 = set_cell h a (fst (cells h ! a), slice_to (snd (cells h ! a)) (fst (cells h ! c)))"
    have same: "fst (cells h1 ! x) = fst (cells h ! x)" for x
      by (simp add: h1_def fst_cells_set_cell)
    from Cons.prems have "\<forall>k\<in>set ks. map_of cd k \<noteq> None \<and> map_of q k \<noteq> None" by simp
    from Cons.IH [OF this, of h1] obtain h' where
      "check_sizes cd q ks h1 =
         Inr (list_all (\<lambda>k. fst (cells h ! the (map_of q k)) \<le> fst (cells h ! the (map_of cd k))) ks, h')"
      by (auto simp: same)
    with a c True show ?thesis by (simp add: Let_def h1_def)
  qed
qed

lemma check_sizes_exact:
  assumes "check_sizes cd q ks h = Inr (True, h')"
    and "distinct (map (\<lambda>k. map_of cd k) ks)"
    and "\<forall>k\<in>set ks. \<forall>a. map_of cd k = Some a \<longrightarrow> a < length (cells h)"
    and "k \<in> set ks" and "map_of cd k = Some a" and "map_of q k = Some c"
  shows "cells h' ! a = (fst (cells h ! a), slice_to (snd (cells h ! a)) (fst (cells h ! c)))"
  using assms(1-4)
proof (induction ks arbitrary: h)
  case Nil
  then show ?case by simp
next
  case (Cons k0 ks)
  from Cons.prems(1) obtain a0 c0 where a0: "map_of cd k0 = Some a0" and c0: "map_of q k0 = Some c0"
    by (auto split: option.splits)
  define h1 where
    "h1 = set_cell h a0 (fst (cells h ! a0), slice_to (snd (cells h ! a0)) (fst (cells h ! c0)))"
  from Cons.prems(1) a0 c0 have le: "fst (cells h ! c0) \<le> fst (cells h ! a0)"
    by (auto simp: Let_def split: if_splits)
  with Cons.prems(1) a0 c0 have run: "check_sizes cd q ks h1 = Inr (True, h')"
    by (simp add: Let_def h1_def)
  from Cons.prems(3) a0 have v0: "a0 < length (cells h)" by simp
  show ?case
  proof (cases "k \<in> set ks")
    case True
    from Cons.prems(2) have "map_of cd k0 \<notin> map_of cd ` set ks" by simp
    moreover from True have "map_of cd k \<in> map_of cd ` set ks" by (rule imageI)
    ultimately have "map_of cd k \<noteq> map_of cd k0" by auto
    with a0 assms(5) have ne: "a \<noteq> a0" by auto
    from Cons.prems(2,3) have "distinct (map (\<lambda>k. map_of cd k) ks)"
      "\<forall>k\<in>set ks. \<forall>a. map_of cd k = Some a \<longrightarrow> a < length (cells h1)"
      by (simp_all add: h1_def length_cells_set_cell)
    from Cons.IH [OF run this True]
    have "cells h' ! a = (fst (cells h1 ! a), slice_to (snd (cells h1 ! a)) (fst (cells h1 ! c)))" .
    moreover have "fst (cells h1 ! c) = fst (cells h ! c)"
      by (simp add: h1_def fst_cells_set_cell)
    moreover have "cells h1 ! a = cells h ! a"
      using ne by (simp add: h1_def cells_set_cell)
    ultimately show ?thesis by simp
  next
    case False
    with Cons.prems(4) have k: "k = k0" by simp
    with a0 c0 assms(5,6) have eq: "a0 = a" "c0 = c" by simp_all
    from Cons.prems(2) have "\<forall>k'\<in>set ks. map_of cd k' \<noteq> Some a0"
      using a0 by (auto simp: image_iff)
    with check_sizes_frame [OF run] have "cells h' ! a0 = cells h1 ! a0" by blast
    with v0 eq show ?thesis by (simp add: h1_def cells_set_cell)
  qed
qed

section \<open>The comparison\<close>

lemma map_of_filter_key:
  "map_of (filter (\<lambda>(x, y). P x) xs) k = (if P k then map_of xs k else None)"
  by (induction xs) auto

lemma map_fst_filter_key: "map fst (filter (\<lambda>(x, y). P x) xs) = filter P (map fst xs)"
  by (induction xs) auto

lemma common_dict_eq:
  assumes "distinct (map fst nz1)"
  shows "dict_comp (filter (\<lambda>(x, y). map_of nz2 x \<noteq> None) nz1) =
         filter (\<lambda>(x, y). x \<in> fst ` set nz2) nz1"
proof -
  have "filter (\<lambda>(x, y). map_of nz2 x \<noteq> None) nz1 = filter (\<lambda>(x, y). x \<in> fst ` set nz2) nz1"
    by (rule filter_cong) (auto simp: map_of_eq_None_iff)
  moreover have "distinct (map fst (filter (\<lambda>(x, y). x \<in> fst ` set nz2) nz1))"
    using assms by (rule distinct_map_filter)
  ultimately show ?thesis by (simp add: dict_comp_distinct)
qed

lemma length_common_dict:
  assumes "distinct (map fst nz1)" and "distinct (map fst nz2)"
  shows "length (filter (\<lambda>(x, y). x \<in> fst ` set nz2) nz1) = length nz2
         \<longleftrightarrow> fst ` set nz2 \<subseteq> fst ` set nz1"
proof -
  let ?K1 = "fst ` set nz1" and ?K2 = "fst ` set nz2"
  have "length (filter (\<lambda>(x, y). x \<in> ?K2) nz1) = length (filter (\<lambda>x. x \<in> ?K2) (map fst nz1))"
    by (simp flip: map_fst_filter_key)
  also have "\<dots> = card (set (filter (\<lambda>x. x \<in> ?K2) (map fst nz1)))"
    by (rule distinct_card [symmetric]) (use assms(1) in simp)
  also have "set (filter (\<lambda>x. x \<in> ?K2) (map fst nz1)) = ?K1 \<inter> ?K2" by auto
  finally have l1: "length (filter (\<lambda>(x, y). x \<in> ?K2) nz1) = card (?K1 \<inter> ?K2)" .
  have l2: "length nz2 = card ?K2"
    using distinct_card [OF assms(2)] by simp
  show ?thesis
  proof
    assume "length (filter (\<lambda>(x, y). x \<in> ?K2) nz1) = length nz2"
    with l1 l2 have "card (?K1 \<inter> ?K2) = card ?K2" by simp
    moreover have "finite ?K2" "?K1 \<inter> ?K2 \<subseteq> ?K2" by auto
    ultimately have "?K1 \<inter> ?K2 = ?K2" by (metis card_subset_eq)
    then show "?K2 \<subseteq> ?K1" by blast
  next
    assume "?K2 \<subseteq> ?K1"
    then have "?K1 \<inter> ?K2 = ?K2" by blast
    with l1 l2 show "length (filter (\<lambda>(x, y). x \<in> ?K2) nz1) = length nz2" by simp
  qed
qed

lemma compare_dicts_unfold:
  assumes "distinct (map fst (non_zero (objs h ! f1)))"
  shows "compare_dicts h f1 f2 =
     (let cd = filter (\<lambda>(x, y). x \<in> fst ` set (non_zero (objs h ! f2))) (non_zero (objs h ! f1))
      in if length cd \<noteq> length (non_zero (objs h ! f2)) then Inr (False, h)
         else
           (case check_sizes cd (non_zero (objs h ! f2)) (map fst cd) h of
              Inl e \<Rightarrow> Inl e
            | Inr (False, h') \<Rightarrow> Inr (False, h')
            | Inr (True, h') \<Rightarrow>
                Inr (True, h'\<lparr>objs := (objs h')[f1 := (objs h' ! f1)\<lparr>shared := Some cd\<rparr>]\<rparr>)))"
  unfolding compare_dicts_def common_dict_eq [OF assms] ..

lemma compare_dicts_verdict:
  assumes d1: "distinct (map fst (non_zero (objs h ! f1)))"
    and d2: "distinct (map fst (non_zero (objs h ! f2)))"
  shows "\<exists>h'. compare_dicts h f1 f2 =
     Inr ((\<forall>c\<in>fst ` set (non_zero (objs h ! f2)).
             c \<in> fst ` set (non_zero (objs h ! f1)) \<and>
             fst (cells h ! the (map_of (non_zero (objs h ! f2)) c))
               \<le> fst (cells h ! the (map_of (non_zero (objs h ! f1)) c))), h')"
proof -
  define nz1 where "nz1 = non_zero (objs h ! f1)"
  define nz2 where "nz2 = non_zero (objs h ! f2)"
  define cd where "cd = filter (\<lambda>(x, y). x \<in> fst ` set nz2) nz1"
  define V where "V \<longleftrightarrow> (\<forall>c\<in>fst ` set nz2. c \<in> fst ` set nz1 \<and>
      fst (cells h ! the (map_of nz2 c)) \<le> fst (cells h ! the (map_of nz1 c)))"
  note unf = compare_dicts_unfold [OF d1, of f2, folded nz1_def nz2_def, folded cd_def]
  have "\<exists>h'. compare_dicts h f1 f2 = Inr (V, h')"
  proof (cases "fst ` set nz2 \<subseteq> fst ` set nz1")
    case False
    then have "length cd \<noteq> length nz2"
      using length_common_dict [OF d1 d2] by (simp add: cd_def nz1_def nz2_def)
    then have "compare_dicts h f1 f2 = Inr (False, h)"
      by (simp add: unf Let_def)
    moreover from False have "\<not> V" unfolding V_def by blast
    ultimately show ?thesis by simp
  next
    case True
    then have len: "length cd = length nz2"
      using length_common_dict [OF d1 d2] by (simp add: cd_def nz1_def nz2_def)
    have keys: "set (map fst cd) = fst ` set nz2"
      using True by (auto simp: cd_def map_fst_filter_key)
    have look: "map_of cd k = map_of nz1 k" if "k \<in> fst ` set nz2" for k
      using that by (simp add: cd_def map_of_filter_key)
    have "\<forall>k\<in>set (map fst cd). map_of cd k \<noteq> None \<and> map_of nz2 k \<noteq> None"
      unfolding keys using True by (auto simp: look map_of_eq_None_iff)
    from check_sizes_verdict [OF this, of h] obtain h' where
      run: "check_sizes cd nz2 (map fst cd) h =
         Inr (list_all (\<lambda>k. fst (cells h ! the (map_of nz2 k)) \<le> fst (cells h ! the (map_of cd k)))
                (map fst cd), h')"
      by blast
    have "list_all (\<lambda>k. fst (cells h ! the (map_of nz2 k)) \<le> fst (cells h ! the (map_of cd k)))
            (map fst cd) = V"
      unfolding list_all_iff keys V_def using True by (auto simp: look)
    with run have run': "check_sizes cd nz2 (map fst cd) h = Inr (V, h')" by simp
    show ?thesis
    proof (cases V)
      case True
      with run' len show ?thesis by (simp add: unf Let_def)
    next
      case False
      with run' len show ?thesis by (simp add: unf Let_def)
    qed
  qed
  then show ?thesis unfolding V_def nz1_def nz2_def .
qed

lemma map_of_keys_conv:
  "distinct (map fst xs) \<Longrightarrow> map (map_of xs) (map fst xs) = map (\<lambda>p. Some (snd p)) xs"
  by (simp add: map_eq_conv)

lemma distinct_map_Some: "distinct (map Some xs) = distinct xs"
  by (simp add: distinct_map)

lemma compare_dicts_frame:
  assumes d1: "distinct (map fst (non_zero (objs h ! f1)))"
    and run: "compare_dicts h f1 f2 = Inr (b, h')"
  shows "length (objs h') = length (objs h) \<and>
         (\<forall>g. g \<noteq> f1 \<longrightarrow> objs h' ! g = objs h ! g) \<and>
         non_zero (objs h' ! f1) = non_zero (objs h ! f1) \<and>
         path (objs h' ! f1) = path (objs h ! f1) \<and>
         length (cells h') = length (cells h) \<and>
         (\<forall>a. fst (cells h' ! a) = fst (cells h ! a)) \<and>
         (\<forall>a. \<exists>m. snd (cells h' ! a) = take m (snd (cells h ! a))) \<and>
         (\<forall>a. a \<notin> snd ` set (non_zero (objs h ! f1)) \<longrightarrow> cells h' ! a = cells h ! a)"
proof -
  define nz1 where "nz1 = non_zero (objs h ! f1)"
  define nz2 where "nz2 = non_zero (objs h ! f2)"
  define cd where "cd = filter (\<lambda>(x, y). x \<in> fst ` set nz2) nz1"
  note unf = compare_dicts_unfold [OF d1, of f2, folded nz1_def nz2_def, folded cd_def]
  show ?thesis
  proof (cases "length cd = length nz2")
    case False
    with run have "h' = h" by (simp add: unf Let_def)
    then show ?thesis by (simp add: take_self_ex)
  next
    case True
    with run obtain b' h1 where cs: "check_sizes cd nz2 (map fst cd) h = Inr (b', h1)"
      by (auto simp: unf Let_def split: sum.splits)
    from check_sizes_frame [OF cs] have
      o: "objs h1 = objs h" and l: "length (cells h1) = length (cells h)" and
      f: "\<forall>a. fst (cells h1 ! a) = fst (cells h ! a)" and
      t: "\<forall>a. \<exists>m. snd (cells h1 ! a) = take m (snd (cells h ! a))" and
      u: "\<forall>a. (\<forall>k\<in>set (map fst cd). map_of cd k \<noteq> Some a) \<longrightarrow> cells h1 ! a = cells h ! a"
      by blast+
    have u': "\<forall>a. a \<notin> snd ` set nz1 \<longrightarrow> cells h1 ! a = cells h ! a"
    proof (intro allI impI)
      fix a assume "a \<notin> snd ` set nz1"
      then have "map_of cd k \<noteq> Some a" for k
        by (auto simp: cd_def map_of_filter_key dest!: map_of_SomeD) force
      with u show "cells h1 ! a = cells h ! a" by blast
    qed
    from run True cs have h': "h' = h1 \<or> h' = h1\<lparr>objs := (objs h1)[f1 := (objs h1 ! f1)\<lparr>shared := Some cd\<rparr>]\<rparr>"
      by (cases b') (auto simp: unf Let_def)
    then have c': "cells h' = cells h1" by auto
    from h' o have "length (objs h') = length (objs h)" by auto
    moreover from h' o have "\<forall>g. g \<noteq> f1 \<longrightarrow> objs h' ! g = objs h ! g" by auto
    moreover from h' o have "non_zero (objs h' ! f1) = non_zero (objs h ! f1) \<and>
        path (objs h' ! f1) = path (objs h ! f1)"
      by (cases "f1 < length (objs h)") (auto simp: list_update_beyond)
    ultimately show ?thesis
      using l f t u' by (simp add: c' nz1_def)
  qed
qed

lemma compare_dicts_exact:
  assumes wf: "wf_profile h f1"
    and d2: "distinct (map fst (non_zero (objs h ! f2)))"
    and run: "compare_dicts h f1 f2 = Inr (True, h')"
  shows "shared (objs h' ! f1) =
           Some (filter (\<lambda>(x, y). x \<in> fst ` set (non_zero (objs h ! f2))) (non_zero (objs h ! f1))) \<and>
         fst ` set (non_zero (objs h ! f2)) \<subseteq> fst ` set (non_zero (objs h ! f1)) \<and>
         (\<forall>c a a2. map_of (non_zero (objs h ! f1)) c = Some a \<longrightarrow>
                   map_of (non_zero (objs h ! f2)) c = Some a2 \<longrightarrow>
            cells h' ! a = (fst (cells h ! a), slice_to (snd (cells h ! a)) (fst (cells h ! a2))))"
proof -
  define nz1 where "nz1 = non_zero (objs h ! f1)"
  define nz2 where "nz2 = non_zero (objs h ! f2)"
  define cd where "cd = filter (\<lambda>(x, y). x \<in> fst ` set nz2) nz1"
  from wf have d1: "distinct (map fst (non_zero (objs h ! f1)))" and da: "distinct (map snd nz1)"
    and valid: "\<forall>(c, a)\<in>set nz1. a < length (cells h)" and f1: "f1 < length (objs h)"
    by (simp_all add: wf_profile_def nz1_def list_all_iff)
  note unf = compare_dicts_unfold [OF d1, of f2, folded nz1_def nz2_def, folded cd_def]
  from run have len: "length cd = length nz2"
    by (auto simp: unf Let_def split: if_splits)
  then have sub: "fst ` set nz2 \<subseteq> fst ` set nz1"
    using length_common_dict [OF d1 d2] by (simp add: cd_def nz1_def nz2_def)
  from run len obtain h1 where cs: "check_sizes cd nz2 (map fst cd) h = Inr (True, h1)"
    and h': "h' = h1\<lparr>objs := (objs h1)[f1 := (objs h1 ! f1)\<lparr>shared := Some cd\<rparr>]\<rparr>"
    by (auto simp: unf Let_def split: sum.splits bool.splits)
  from check_sizes_frame [OF cs] have o: "objs h1 = objs h" by blast
  have dcd: "distinct (map fst cd)"
    unfolding cd_def using d1 [folded nz1_def] by (rule distinct_map_filter)
  have "distinct (map snd cd)"
    unfolding cd_def using da by (rule distinct_map_filter)
  moreover have "map (map_of cd) (map fst cd) = map Some (map snd cd)"
    using map_of_keys_conv [OF dcd] by simp
  ultimately have dist: "distinct (map (\<lambda>k. map_of cd k) (map fst cd))"
    by (simp only: distinct_map_Some)
  have look: "map_of cd k = (if k \<in> fst ` set nz2 then map_of nz1 k else None)" for k
    by (simp add: cd_def map_of_filter_key)
  have val: "\<forall>k\<in>set (map fst cd). \<forall>a. map_of cd k = Some a \<longrightarrow> a < length (cells h)"
    using valid by (auto simp: look dest!: map_of_SomeD split: if_splits)
  have "cells h' ! a = (fst (cells h ! a), slice_to (snd (cells h ! a)) (fst (cells h ! a2)))"
    if 1: "map_of nz1 c = Some a" and 2: "map_of nz2 c = Some a2" for c a a2
  proof -
    from 2 have k2: "c \<in> fst ` set nz2" by (metis map_of_eq_None_iff option.distinct(1))
    with 1 have m: "map_of cd c = Some a" by (simp add: look)
    then have "c \<in> set (map fst cd)" by (metis map_of_eq_None_iff option.distinct(1) set_map)
    from check_sizes_exact [OF cs dist val this m 2] show ?thesis by (simp add: h')
  qed
  moreover have "shared (objs h' ! f1) = Some cd"
    using f1 o by (simp add: h')
  ultimately show ?thesis
    using sub by (simp add: nz1_def nz2_def cd_def)
qed

section \<open>Frames: what stays when the heap grows\<close>

lemma wf_profile_extend:
  "wf_profile h g \<Longrightarrow> wf_profile \<lparr>cells = cells h @ cs, objs = objs h @ obs\<rparr> g"
  by (auto simp: wf_profile_def nth_append list_all_iff)

lemma profile_inv_extend:
  "profile_inv h g \<Longrightarrow> profile_inv \<lparr>cells = cells h @ cs, objs = objs h @ obs\<rparr> g"
  unfolding profile_inv_def
  by (auto simp: wf_profile_extend) (auto simp: wf_profile_def nth_append list_all_iff)

lemma is_profile_extend:
  "is_profile h g s \<Longrightarrow> is_profile \<lparr>cells = cells h @ cs, objs = objs h @ obs\<rparr> g s"
  unfolding is_profile_def
  by (auto simp: wf_profile_extend) (auto simp: wf_profile_def nth_append list_all_iff)

lemma is_profile_inv: "is_profile h f s \<Longrightarrow> profile_inv h f"
  by (auto simp: is_profile_def profile_inv_def entry_inv_def list_all_iff sorted_occ length_occ)

section \<open>Containment decides the verdict\<close>

text \<open>
  Claim C1. For two profiles (dicts, so with distinct keys) the comparison returns, and
  it returns \<open>True\<close> exactly when every character of the query profile is a key of the
  candidate profile with a count at least the query's; a query character that is absent,
  or one count that is too small, gives \<open>False\<close>.
\<close>

theorem compare_dicts_iff_contained:
  assumes "distinct (map fst (non_zero (objs h ! f1)))"
    and "distinct (map fst (non_zero (objs h ! f2)))"
  shows "\<exists>h'. compare_dicts h f1 f2 =
           Inr ((\<forall>c n. count_of h f2 c = Some n \<longrightarrow>
                   (\<exists>m. count_of h f1 c = Some m \<and> n \<le> m)), h')"
proof -
  let ?nz1 = "non_zero (objs h ! f1)" and ?nz2 = "non_zero (objs h ! f2)"
  have "(\<forall>c\<in>fst ` set ?nz2. c \<in> fst ` set ?nz1 \<and>
            fst (cells h ! the (map_of ?nz2 c)) \<le> fst (cells h ! the (map_of ?nz1 c)))
        \<longleftrightarrow> (\<forall>c n. count_of h f2 c = Some n \<longrightarrow> (\<exists>m. count_of h f1 c = Some m \<and> n \<le> m))"
    (is "?V \<longleftrightarrow> ?W")
  proof
    assume v: ?V
    show ?W
    proof (intro allI impI)
      fix c n assume "count_of h f2 c = Some n"
      then obtain a2 where a2: "map_of ?nz2 c = Some a2" and n: "n = fst (cells h ! a2)"
        by (auto simp: count_of_def)
      from a2 have "c \<in> fst ` set ?nz2" by (metis map_of_eq_None_iff option.distinct(1))
      with v have "c \<in> fst ` set ?nz1"
        and le: "fst (cells h ! the (map_of ?nz2 c)) \<le> fst (cells h ! the (map_of ?nz1 c))"
        by blast+
      then obtain a where a: "map_of ?nz1 c = Some a"
        by (cases "map_of ?nz1 c") (auto simp: map_of_eq_None_iff)
      with le a2 n show "\<exists>m. count_of h f1 c = Some m \<and> n \<le> m"
        by (simp add: count_of_def)
    qed
  next
    assume w: ?W
    show ?V
    proof
      fix c assume "c \<in> fst ` set ?nz2"
      then obtain a2 where a2: "map_of ?nz2 c = Some a2"
        by (cases "map_of ?nz2 c") (auto simp: map_of_eq_None_iff)
      then have "count_of h f2 c = Some (fst (cells h ! a2))" by (simp add: count_of_def)
      with w obtain m where "count_of h f1 c = Some m" "fst (cells h ! a2) \<le> m" by blast
      then obtain a where "map_of ?nz1 c = Some a" "fst (cells h ! a2) \<le> fst (cells h ! a)"
        by (auto simp: count_of_def)
      with a2 show "c \<in> fst ` set ?nz1 \<and>
          fst (cells h ! the (map_of ?nz2 c)) \<le> fst (cells h ! the (map_of ?nz1 c))"
        by (auto dest: map_of_SomeD intro: rev_image_eqI)
    qed
  qed
  with compare_dicts_verdict [OF assms] show ?thesis by simp
qed

text \<open>
  Witness for C1: \<open>aab\<close> against \<open>ab\<close> is a match, \<open>ab\<close> against \<open>aab\<close> is none
  (one \<open>a\<close> where two are asked for).
\<close>

theorem compare_dicts_iff_contained_witness:
  "(\<exists>h'. compare_dicts ex_heap 0 1 = Inr (True, h')) \<and>
   (\<exists>h'. compare_dicts ex_heap 1 0 = Inr (False, h'))"
proof
  have d: "distinct (map fst (non_zero (objs ex_heap ! 0)))"
    "distinct (map fst (non_zero (objs ex_heap ! 1)))"
    by (simp_all add: ex_heap_def)
  have "(\<forall>c n. count_of ex_heap 1 c = Some n \<longrightarrow> (\<exists>m. count_of ex_heap 0 c = Some m \<and> n \<le> m))"
    by (simp add: ex_heap_def count_of_def)
  with compare_dicts_iff_contained [OF d]
  show "\<exists>h'. compare_dicts ex_heap 0 1 = Inr (True, h')" by simp
  have "count_of ex_heap 0 97 = Some 2" "count_of ex_heap 1 97 = Some 1"
    by (simp_all add: ex_heap_def count_of_def)
  define W where "W \<longleftrightarrow>
    (\<forall>c n. count_of ex_heap 0 c = Some n \<longrightarrow> (\<exists>m. count_of ex_heap 1 c = Some m \<and> n \<le> m))"
  have "\<not> W"
  proof
    assume W
    then have "\<exists>m. count_of ex_heap 1 97 = Some m \<and> 2 \<le> m"
      unfolding W_def using \<open>count_of ex_heap 0 97 = Some 2\<close> by blast
    with \<open>count_of ex_heap 1 97 = Some 1\<close> show False by simp
  qed
  with compare_dicts_iff_contained [OF d(2,1), folded W_def]
  show "\<exists>h'. compare_dicts ex_heap 1 0 = Inr (False, h')" by simp
qed

section \<open>The example heap\<close>

lemma ex_compare: "compare_dicts ex_heap 0 1 = Inr (True, ex_heap_matched)"
  by (simp add: compare_dicts_def ex_heap_def ex_heap_matched_def dict_comp_def set_cell_def
      slice_to_def Let_def)

lemma ex_profile_inv: "profile_inv ex_heap 0" "profile_inv ex_heap 1"
  by (simp_all add: profile_inv_def wf_profile_def entry_inv_def ex_heap_def)

lemma ex_is_profile: "is_profile ex_heap 0 (str ''aab'')" "is_profile ex_heap 1 (str ''ab'')"
  by (simp_all add: is_profile_def wf_profile_def ex_heap_def str_def occ_def printable_def)

lemma ex_weak_inv: "profile_weak_inv ex_heap 0" "profile_weak_inv ex_heap 1"
  by (simp_all add: profile_weak_inv_def wf_profile_def entry_weak_inv_def ex_heap_def)

lemma ex_compared_weak_inv:
  "profile_weak_inv ex_heap_compared 0" "profile_weak_inv ex_heap_compared 3"
  by (simp_all add: profile_weak_inv_def wf_profile_def entry_weak_inv_def ex_heap_compared_def)

lemma ex_compare_second:
  "compare_dicts ex_heap_compared 0 3 =
     Inr (True, ex_heap_compared\<lparr>objs := (objs ex_heap_compared)
                 [0 := (objs ex_heap_compared ! 0)\<lparr>shared := Some [(97, 0)]\<rparr>]\<rparr>)"
  by (simp add: compare_dicts_def ex_heap_compared_def dict_comp_def set_cell_def slice_to_def
      Let_def)

section \<open>The shared profile holds a prefix of the position list\<close>

text \<open>
  Claim C2, amended. When the comparison returns \<open>True\<close>, the \<open>shared\<close> dict of the
  candidate has exactly the characters of the query, and for each of them it holds the
  first \<open>n\<close> entries of the position list the candidate has at the call, \<open>n\<close> the
  count of the query, in their increasing order (all of them where the list is shorter).
  For a candidate that satisfies the invariant at the call, as one that was in no
  comparison before, these are exactly \<open>n\<close> entries: the leftmost occurrences.
\<close>

theorem shared_is_prefix_of_positions:
  assumes w1: "profile_weak_inv h f1" and w2: "profile_weak_inv h f2"
    and run: "compare_dicts h f1 f2 = Inr (True, h')"
  shows "(\<forall>c n. count_of h f2 c = Some n \<longrightarrow>
            (\<exists>ps. positions_of h f1 c = Some ps \<and> sorted_wrt (<) ps \<and>
                  shared_positions h' f1 c = Some (take (nat n) ps) \<and>
                  (profile_inv h f1 \<longrightarrow> int (length (take (nat n) ps)) = n))) \<and>
         (\<forall>c. count_of h f2 c = None \<longrightarrow> shared_positions h' f1 c = None)"
proof -
  let ?nz1 = "non_zero (objs h ! f1)" and ?nz2 = "non_zero (objs h ! f2)"
  let ?cd = "filter (\<lambda>(x, y). x \<in> fst ` set ?nz2) ?nz1"
  from w1 have wf: "wf_profile h f1" by (simp add: profile_weak_inv_def)
  from w1 have d1: "distinct (map fst ?nz1)" by (simp add: profile_weak_inv_def wf_profile_def)
  from w2 have d2: "distinct (map fst ?nz2)" by (simp add: profile_weak_inv_def wf_profile_def)
  from w1 have e1: "\<And>c a. map_of ?nz1 c = Some a \<Longrightarrow> entry_weak_inv (cells h ! a)"
    by (auto simp: profile_weak_inv_def list_all_iff dest!: map_of_SomeD)
  from w2 have e2: "\<And>c a. map_of ?nz2 c = Some a \<Longrightarrow> entry_weak_inv (cells h ! a)"
    by (auto simp: profile_weak_inv_def list_all_iff dest!: map_of_SomeD)
  from compare_dicts_exact [OF wf d2 run] have
    sh: "shared (objs h' ! f1) = Some ?cd" and sub: "fst ` set ?nz2 \<subseteq> fst ` set ?nz1" and
    ex: "\<And>c a a2. map_of ?nz1 c = Some a \<Longrightarrow> map_of ?nz2 c = Some a2 \<Longrightarrow>
      cells h' ! a = (fst (cells h ! a), slice_to (snd (cells h ! a)) (fst (cells h ! a2)))"
    by blast+
  from compare_dicts_verdict [OF d1 d2] run have
    le: "\<And>c. c \<in> fst ` set ?nz2 \<Longrightarrow>
      fst (cells h ! the (map_of ?nz2 c)) \<le> fst (cells h ! the (map_of ?nz1 c))"
    by auto
  have look: "map_of ?cd c = (if c \<in> fst ` set ?nz2 then map_of ?nz1 c else None)" for c
    by (simp add: map_of_filter_key)
  show ?thesis
  proof (intro conjI allI impI)
    fix c n assume "count_of h f2 c = Some n"
    then obtain a2 where a2: "map_of ?nz2 c = Some a2" and n: "n = fst (cells h ! a2)"
      by (auto simp: count_of_def)
    from a2 have k2: "c \<in> fst ` set ?nz2" by (metis map_of_eq_None_iff option.distinct(1))
    with sub obtain a where a: "map_of ?nz1 c = Some a"
      by (cases "map_of ?nz1 c") (auto simp: map_of_eq_None_iff)
    define ps where "ps = snd (cells h ! a)"
    from e1 [OF a] have s1: "sorted_wrt (<) ps" by (simp add: entry_weak_inv_def ps_def)
    from e2 [OF a2] n have n0: "0 \<le> n" by (simp add: entry_weak_inv_def)
    from ex [OF a a2] n0 have "snd (cells h' ! a) = take (nat n) ps"
      by (simp add: n ps_def slice_to_nonneg)
    with sh k2 a have "shared_positions h' f1 c = Some (take (nat n) ps)"
      by (simp add: shared_positions_def look)
    moreover have "positions_of h f1 c = Some ps"
      using a by (simp add: positions_of_def ps_def)
    moreover have "int (length (take (nat n) ps)) = n" if "profile_inv h f1"
    proof -
      from that a have "entry_inv (cells h ! a)"
        by (auto simp: profile_inv_def list_all_iff dest!: map_of_SomeD)
      then have "int (length ps) = fst (cells h ! a)" by (simp add: entry_inv_def ps_def)
      with le [OF k2] a a2 n have "n \<le> int (length ps)" by simp
      with n0 show ?thesis by simp
    qed
    ultimately show "\<exists>ps. positions_of h f1 c = Some ps \<and> sorted_wrt (<) ps \<and>
        shared_positions h' f1 c = Some (take (nat n) ps) \<and>
        (profile_inv h f1 \<longrightarrow> int (length (take (nat n) ps)) = n)"
      using s1 by blast
  next
    fix c assume "count_of h f2 c = None"
    then have "c \<notin> fst ` set ?nz2" by (simp add: count_of_def map_of_eq_None_iff)
    with sh show "shared_positions h' f1 c = None"
      by (simp add: shared_positions_def look)
  qed
qed

text \<open>
  Witness for C2: of the two \<open>a\<close> of \<open>aab\<close>, at 0 and 1, the query \<open>ab\<close> marks the
  one at 0, and \<open>c\<close> (99), which is not in the query, has no entry; compared again,
  with \<open>aa\<close>, the candidate has the one position left to give.
\<close>

theorem shared_is_prefix_of_positions_witness:
  "profile_weak_inv ex_heap 0 \<and> profile_weak_inv ex_heap 1 \<and> profile_inv ex_heap 0 \<and>
   compare_dicts ex_heap 0 1 = Inr (True, ex_heap_matched) \<and>
   count_of ex_heap 1 97 = Some 1 \<and> positions_of ex_heap 0 97 = Some [0, 1] \<and>
   shared_positions ex_heap_matched 0 97 = Some [0] \<and>
   shared_positions ex_heap_matched 0 99 = None \<and>
   profile_weak_inv ex_heap_compared 0 \<and> profile_weak_inv ex_heap_compared 3 \<and>
   count_of ex_heap_compared 3 97 = Some 2 \<and> positions_of ex_heap_compared 0 97 = Some [0] \<and>
   shared_positions
     (ex_heap_compared\<lparr>objs := (objs ex_heap_compared)
        [0 := (objs ex_heap_compared ! 0)\<lparr>shared := Some [(97, 0)]\<rparr>]\<rparr>) 0 97 = Some [0]"
proof -
  note fact1 = shared_is_prefix_of_positions [OF ex_weak_inv ex_compare]
  note fact2 = shared_is_prefix_of_positions [OF ex_compared_weak_inv ex_compare_second]
  have c: "count_of ex_heap 1 97 = Some 1" and p: "positions_of ex_heap 0 97 = Some [0, 1]"
    and n: "count_of ex_heap 1 99 = None"
    by (simp_all add: count_of_def positions_of_def ex_heap_def)
  have c2: "count_of ex_heap_compared 3 97 = Some 2"
    and p2: "positions_of ex_heap_compared 0 97 = Some [0]"
    by (simp_all add: count_of_def positions_of_def ex_heap_compared_def)
  from fact1 c obtain ps where "positions_of ex_heap 0 97 = Some ps"
    "shared_positions ex_heap_matched 0 97 = Some (take (nat 1) ps)" by blast
  with p have 1: "shared_positions ex_heap_matched 0 97 = Some [0]" by simp
  from fact1 n have 2: "shared_positions ex_heap_matched 0 99 = None" by blast
  from fact2 c2 obtain ps where "positions_of ex_heap_compared 0 97 = Some ps"
    "shared_positions
       (ex_heap_compared\<lparr>objs := (objs ex_heap_compared)
          [0 := (objs ex_heap_compared ! 0)\<lparr>shared := Some [(97, 0)]\<rparr>]\<rparr>) 0 97 =
     Some (take (nat 2) ps)" by blast
  with p2 have 3: "shared_positions
       (ex_heap_compared\<lparr>objs := (objs ex_heap_compared)
          [0 := (objs ex_heap_compared ! 0)\<lparr>shared := Some [(97, 0)]\<rparr>]\<rparr>) 0 97 = Some [0]"
    by simp
  show ?thesis
    using ex_weak_inv ex_profile_inv(1) ex_compare c p 1 2 ex_compared_weak_inv c2 p2 3
    by simp
qed

section \<open>Comparing the profiles of two strings\<close>

lemma is_profile_keys: "is_profile h f s \<Longrightarrow> fst ` set (non_zero (objs h ! f)) = set s"
proof -
  assume p: "is_profile h f s"
  then have "set (map fst (non_zero (objs h ! f))) = set (filter (\<lambda>c. c \<in> set s) printable)"
    by (simp only: is_profile_def)
  also from p have "\<dots> = set s" by (auto simp: is_profile_def)
  finally show ?thesis by simp
qed

lemma is_profile_distinct: "is_profile h f s \<Longrightarrow> distinct (map fst (non_zero (objs h ! f)))"
proof -
  assume "is_profile h f s"
  then have "wf_profile h f" by (simp add: is_profile_def)
  then show ?thesis by (simp add: wf_profile_def)
qed

lemma is_profile_cell:
  "is_profile h f s \<Longrightarrow> map_of (non_zero (objs h ! f)) c = Some a \<Longrightarrow>
   cells h ! a = (int (count_list s c), occ 0 s c)"
  by (auto simp: is_profile_def list_all_iff dest!: map_of_SomeD)

lemma is_profile_lookup:
  "is_profile h f s \<Longrightarrow> c \<in> set s \<Longrightarrow> \<exists>a. map_of (non_zero (objs h ! f)) c = Some a"
  using is_profile_keys [of h f s] by (cases "map_of (non_zero (objs h ! f)) c")
    (auto simp: map_of_eq_None_iff)

lemma contains_iff: "contains s q \<longleftrightarrow> (\<forall>c\<in>set q. count_list q c \<le> count_list s c)"
  by (simp add: contains_def list_all_iff)

lemma compare_profiles:
  assumes p1: "is_profile h f1 s" and p2: "is_profile h f2 q"
  shows "\<exists>h'. compare_dicts h f1 f2 = Inr (contains s q, h') \<and>
           (contains s q \<longrightarrow>
              shared (objs h' ! f1) =
                Some (filter (\<lambda>(c, a). c \<in> set q) (non_zero (objs h ! f1))) \<and>
              (\<forall>c a. map_of (non_zero (objs h ! f1)) c = Some a \<longrightarrow> c \<in> set q \<longrightarrow>
                 cells h' ! a = (int (count_list s c), take (count_list q c) (occ 0 s c))))"
proof -
  let ?nz1 = "non_zero (objs h ! f1)" and ?nz2 = "non_zero (objs h ! f2)"
  from p1 have wf: "wf_profile h f1" by (simp add: is_profile_def)
  then have d1: "distinct (map fst ?nz1)" by (simp add: wf_profile_def)
  from p2 have "wf_profile h f2" by (simp add: is_profile_def)
  then have d2: "distinct (map fst ?nz2)" by (simp add: wf_profile_def)
  note k1 = is_profile_keys [OF p1] and k2 = is_profile_keys [OF p2]
  have "(\<forall>c\<in>fst ` set ?nz2. c \<in> fst ` set ?nz1 \<and>
            fst (cells h ! the (map_of ?nz2 c)) \<le> fst (cells h ! the (map_of ?nz1 c)))
        \<longleftrightarrow> contains s q"
    unfolding k1 k2 contains_iff
  proof (intro ball_cong refl)
    fix c assume c: "c \<in> set q"
    then obtain a2 where a2: "map_of ?nz2 c = Some a2" using is_profile_lookup [OF p2] by blast
    note v2 = is_profile_cell [OF p2 a2]
    show "(c \<in> set s \<and> fst (cells h ! the (map_of ?nz2 c)) \<le> fst (cells h ! the (map_of ?nz1 c)))
          \<longleftrightarrow> count_list q c \<le> count_list s c"
    proof (cases "c \<in> set s")
      case True
      then obtain a where a: "map_of ?nz1 c = Some a" using is_profile_lookup [OF p1] by blast
      from is_profile_cell [OF p1 a] v2 a a2 True show ?thesis by simp
    next
      case False
      then have "count_list s c = 0" by simp
      moreover from c have "0 < count_list q c" by (simp add: count_list_pos)
      ultimately show ?thesis using False by simp
    qed
  qed
  with compare_dicts_verdict [OF d1 d2] obtain h' where
    run: "compare_dicts h f1 f2 = Inr (contains s q, h')" by auto
  have "shared (objs h' ! f1) = Some (filter (\<lambda>(c, a). c \<in> set q) ?nz1) \<and>
      (\<forall>c a. map_of ?nz1 c = Some a \<longrightarrow> c \<in> set q \<longrightarrow>
         cells h' ! a = (int (count_list s c), take (count_list q c) (occ 0 s c)))"
    if "contains s q"
  proof -
    from run that have run': "compare_dicts h f1 f2 = Inr (True, h')" by simp
    from compare_dicts_exact [OF wf d2 run'] have
      sh: "shared (objs h' ! f1) = Some (filter (\<lambda>(x, y). x \<in> fst ` set ?nz2) ?nz1)" and
      ex: "\<And>c a a2. map_of ?nz1 c = Some a \<Longrightarrow> map_of ?nz2 c = Some a2 \<Longrightarrow>
        cells h' ! a = (fst (cells h ! a), slice_to (snd (cells h ! a)) (fst (cells h ! a2)))"
      by blast+
    have "cells h' ! a = (int (count_list s c), take (count_list q c) (occ 0 s c))"
      if a: "map_of ?nz1 c = Some a" and c: "c \<in> set q" for c a
    proof -
      from c obtain a2 where a2: "map_of ?nz2 c = Some a2" using is_profile_lookup [OF p2] by blast
      from ex [OF a a2] is_profile_cell [OF p1 a] is_profile_cell [OF p2 a2]
      show ?thesis by (simp add: slice_to_nonneg)
    qed
    with sh show ?thesis by (simp add: k2)
  qed
  with run show ?thesis by blast
qed

lemma compare_dicts_keeps_profile:
  assumes wf: "wf_profile h f1" and run: "compare_dicts h f1 f2 = Inr (b, h')"
    and g: "is_profile h g s" and sep: "separate h f1 g"
  shows "is_profile h' g s"
proof -
  from wf have d1: "distinct (map fst (non_zero (objs h ! f1)))" by (simp add: wf_profile_def)
  from compare_dicts_frame [OF d1 run] have
    lo: "length (objs h') = length (objs h)" and
    ob: "\<And>g. g \<noteq> f1 \<Longrightarrow> objs h' ! g = objs h ! g" and
    lc: "length (cells h') = length (cells h)" and
    un: "\<And>a. a \<notin> snd ` set (non_zero (objs h ! f1)) \<Longrightarrow> cells h' ! a = cells h ! a"
    by blast+
  from sep have ne: "g \<noteq> f1"
    and dis: "\<And>c a. (c, a) \<in> set (non_zero (objs h ! g)) \<Longrightarrow> a \<notin> snd ` set (non_zero (objs h ! f1))"
    by (auto simp: separate_def list_all_iff)
  from g show ?thesis
    unfolding is_profile_def wf_profile_def list_all_iff
    using lo lc by (auto simp: ob [OF ne] un [OF dis])
qed

section \<open>The presentation and the scan\<close>

lemma colorize_spec:
  assumes sh: "shared (objs h ! f) = Some sh" and p: "path (objs h ! f) = s"
    and keys: "map fst sh = filter (\<lambda>c. c \<in> set q) (filter (\<lambda>c. c \<in> set s) printable)"
    and pos: "\<forall>(c, a)\<in>set sh. snd (cells h ! a) = take (count_list q c) (occ 0 s c)"
  shows "colorize L h f color = highlight L color q s"
proof -
  have "map (\<lambda>(key, a). snd (cells h ! a)) sh = map (\<lambda>(c, a). take (count_list q c) (occ 0 s c)) sh"
    using pos by (intro map_cong refl) auto
  also have "\<dots> = map (\<lambda>c. take (count_list q c) (occ 0 s c)) (map fst sh)"
    by (simp add: case_prod_unfold)
  finally have "concat (map (\<lambda>(key, a). snd (cells h ! a)) sh) = matched_indexes s q"
    by (simp only: matched_indexes_def keys)
  then show ?thesis
    by (simp add: colorize_def sh p highlight_def Let_def)
qed

lemma scan_step:
  assumes pq: "is_profile h fq query"
    and pr: "set (candidate L E file) \<subseteq> set printable"
  shows "\<exists>h2. is_profile h2 fq query \<and>
           scan L E fq color (file # files) h out =
             (if contains (candidate L E file) query
              then (case highlight L color query (candidate L E file) of
                      Inl e \<Rightarrow> (out, Raised e)
                    | Inr line \<Rightarrow> scan L E fq color files h2 (out @ [Stdout line]))
              else scan L E fq color files h2 out)"
proof -
  define cand where "cand = candidate L E file"
  define ff where "ff = length (objs h)"
  from Fuzzable_init_ok [OF pr, of h] obtain ob cs where
    init: "Fuzzable_init h cand = Inr (ff, \<lparr>cells = cells h @ cs, objs = objs h @ [ob]\<rparr>)" and
    p1: "is_profile \<lparr>cells = cells h @ cs, objs = objs h @ [ob]\<rparr> ff cand" and
    fresh: "\<forall>a\<in>snd ` set (non_zero ob). length (cells h) \<le> a"
    unfolding cand_def ff_def by blast
  define h1 where "h1 = \<lparr>cells = cells h @ cs, objs = objs h @ [ob]\<rparr>"
  note init = init [folded h1_def] and p1 = p1 [folded h1_def]
  have pq1: "is_profile h1 fq query"
    unfolding h1_def using pq by (rule is_profile_extend)
  from p1 have wf1: "wf_profile h1 ff" by (simp add: is_profile_def)
  from pq have wfq: "wf_profile h fq" by (simp add: is_profile_def)
  have nzf: "non_zero (objs h1 ! ff) = non_zero ob"
    by (simp add: h1_def ff_def)
  have sep: "separate h1 ff fq"
  proof -
    from wfq have lt: "fq < length (objs h)"
      and old: "\<forall>(c, a)\<in>set (non_zero (objs h ! fq)). a < length (cells h)"
      by (simp_all add: wf_profile_def list_all_iff)
    from lt have "non_zero (objs h1 ! fq) = non_zero (objs h ! fq)"
      by (simp add: h1_def nth_append)
    with old fresh lt show ?thesis
      unfolding separate_def list_all_iff nzf by (fastforce simp: ff_def)
  qed
  from compare_profiles [OF p1 pq1] obtain h2 where
    run: "compare_dicts h1 ff fq = Inr (contains cand query, h2)" and
    ex: "contains cand query \<Longrightarrow>
      shared (objs h2 ! ff) = Some (filter (\<lambda>(c, a). c \<in> set query) (non_zero (objs h1 ! ff))) \<and>
      (\<forall>c a. map_of (non_zero (objs h1 ! ff)) c = Some a \<longrightarrow> c \<in> set query \<longrightarrow>
         cells h2 ! a = (int (count_list cand c), take (count_list query c) (occ 0 cand c)))"
    by blast
  have pq2: "is_profile h2 fq query"
    using wf1 run pq1 sep by (rule compare_dicts_keeps_profile)
  have step: "Fuzzable_init h (os_path_join L (path_absolute E) (entry_name file)) = Inr (ff, h1)"
    using init by (simp add: cand_def candidate_def)
  show ?thesis
  proof (cases "contains cand query")
    case False
    with step run have "scan L E fq color (file # files) h out = scan L E fq color files h2 out"
      by simp
    with pq2 False show ?thesis by (auto simp: cand_def)
  next
    case True
    let ?nz = "non_zero (objs h1 ! ff)"
    let ?sh = "filter (\<lambda>(c, a). c \<in> set query) ?nz"
    from wf1 have d1: "distinct (map fst ?nz)" by (simp add: wf_profile_def)
    from compare_dicts_frame [OF d1 run] p1 have pth: "path (objs h2 ! ff) = cand"
      by (simp add: is_profile_def)
    from p1 have "map fst ?nz = filter (\<lambda>c. c \<in> set cand) printable"
      by (simp add: is_profile_def)
    then have keys: "map fst ?sh = filter (\<lambda>c. c \<in> set query) (filter (\<lambda>c. c \<in> set cand) printable)"
      by (simp add: map_fst_filter_key)
    have pos: "\<forall>(c, a)\<in>set ?sh. snd (cells h2 ! a) = take (count_list query c) (occ 0 cand c)"
      using ex [OF True] d1 by auto
    from ex [OF True] have sh: "shared (objs h2 ! ff) = Some ?sh" by blast
    from colorize_spec [OF sh pth keys pos]
    have col: "colorize L h2 ff color = highlight L color query cand" .
    have "scan L E fq color (file # files) h out =
        (case highlight L color query cand of
           Inl e \<Rightarrow> (out, Raised e)
         | Inr line \<Rightarrow> scan L E fq color files h2 (out @ [Stdout line]))"
      using step run True by (simp add: col)
    with pq2 True show ?thesis by (auto simp: cand_def)
  qed
qed

lemma scan_spec:
  assumes "is_profile h fq query"
    and "\<forall>file\<in>set files. set (candidate L E file) \<subseteq> set printable"
    and "\<forall>file\<in>set files. contains (candidate L E file) query \<longrightarrow>
           highlight L color query (candidate L E file) = Inr (line file)"
  shows "scan L E fq color files h out =
           (out @ map (\<lambda>file. Stdout (line file))
                      (filter (\<lambda>file. contains (candidate L E file) query) files),
            Returned)"
  using assms
proof (induction files arbitrary: h out)
  case Nil
  then show ?case by simp
next
  case (Cons x files)
  from Cons.prems have "set (candidate L E x) \<subseteq> set printable" by simp
  from scan_step [OF Cons.prems(1) this, of color files out] obtain h2 where
    pq2: "is_profile h2 fq query" and
    eq: "scan L E fq color (x # files) h out =
       (if contains (candidate L E x) query
        then (case highlight L color query (candidate L E x) of
                Inl e \<Rightarrow> (out, Raised e)
              | Inr line \<Rightarrow> scan L E fq color files h2 (out @ [Stdout line]))
        else scan L E fq color files h2 out)"
    by blast
  from Cons.prems have rest: "\<forall>file\<in>set files. set (candidate L E file) \<subseteq> set printable"
    "\<forall>file\<in>set files. contains (candidate L E file) query \<longrightarrow>
       highlight L color query (candidate L E file) = Inr (line file)"
    by simp_all
  from Cons.prems(3) have hl: "contains (candidate L E x) query \<Longrightarrow>
      highlight L color query (candidate L E x) = Inr (line x)"
    by simp
  show ?case
  proof (cases "contains (candidate L E x) query")
    case True
    with eq hl have "scan L E fq color (x # files) h out =
        scan L E fq color files h2 (out @ [Stdout (line x)])"
      by (simp del: scan.simps)
    with Cons.IH [OF pq2 rest, of "out @ [Stdout (line x)]"] True show ?thesis
      by (simp del: scan.simps)
  next
    case False
    with eq have "scan L E fq color (x # files) h out = scan L E fq color files h2 out"
      by (simp del: scan.simps)
    with Cons.IH [OF pq2 rest, of out] False show ?thesis
      by (simp del: scan.simps)
  qed
qed

text \<open>
  The scan ends at the first entry whose path the profiler refuses, or whose match
  \<open>colored\<close> refuses to paint.
\<close>

lemma scan_abort:
  assumes "is_profile h fq query"
    and "\<forall>file\<in>set pre. set (candidate L E file) \<subseteq> set printable"
    and "\<forall>file\<in>set pre. contains (candidate L E file) query \<longrightarrow>
           highlight L color query (candidate L E file) = Inr (line file)"
    and "\<not> set (candidate L E bad) \<subseteq> set printable"
  shows "\<exists>c. c \<in> set (candidate L E bad) \<and> c \<notin> set printable \<and>
           scan L E fq color (pre @ bad # rest) h out =
             (out @ map (\<lambda>file. Stdout (line file))
                        (filter (\<lambda>file. contains (candidate L E file) query) pre),
              Raised (KeyError c))"
  using assms(1-3)
proof (induction pre arbitrary: h out)
  case Nil
  from Fuzzable_init_fail [OF assms(4), of h] show ?case
    by (auto simp: candidate_def)
next
  case (Cons x pre)
  define out' where "out' =
    (if contains (candidate L E x) query then out @ [Stdout (line x)] else out)"
  from Cons.prems have "set (candidate L E x) \<subseteq> set printable" by simp
  from scan_step [OF Cons.prems(1) this, of color "pre @ bad # rest" out] obtain h2 where
    pq2: "is_profile h2 fq query" and
    eq0: "scan L E fq color (x # pre @ bad # rest) h out =
       (if contains (candidate L E x) query
        then (case highlight L color query (candidate L E x) of
                Inl e \<Rightarrow> (out, Raised e)
              | Inr line \<Rightarrow> scan L E fq color (pre @ bad # rest) h2 (out @ [Stdout line]))
        else scan L E fq color (pre @ bad # rest) h2 out)"
    by blast
  from Cons.prems(3) have hl: "contains (candidate L E x) query \<Longrightarrow>
      highlight L color query (candidate L E x) = Inr (line x)"
    by simp
  have eq: "scan L E fq color ((x # pre) @ bad # rest) h out =
      scan L E fq color (pre @ bad # rest) h2 out'"
    using eq0 hl by (cases "contains (candidate L E x) query") (simp_all add: out'_def del: scan.simps)
  from Cons.prems have "\<forall>file\<in>set pre. set (candidate L E file) \<subseteq> set printable"
    "\<forall>file\<in>set pre. contains (candidate L E file) query \<longrightarrow>
       highlight L color query (candidate L E file) = Inr (line file)"
    by simp_all
  from Cons.IH [OF pq2 this, of out'] obtain c where
    c: "c \<in> set (candidate L E bad)" "c \<notin> set printable" and
    r: "scan L E fq color (pre @ bad # rest) h2 out' =
          (out' @ map (\<lambda>file. Stdout (line file))
                      (filter (\<lambda>file. contains (candidate L E file) query) pre),
           Raised (KeyError c))"
    by blast
  have "out' @ map (\<lambda>file. Stdout (line file))
                   (filter (\<lambda>file. contains (candidate L E file) query) pre) =
        out @ map (\<lambda>file. Stdout (line file))
                  (filter (\<lambda>file. contains (candidate L E file) query) (x # pre))"
    by (simp add: out'_def)
  with r have "scan L E fq color ((x # pre) @ bad # rest) h out =
      (out @ map (\<lambda>file. Stdout (line file))
                 (filter (\<lambda>file. contains (candidate L E file) query) (x # pre)),
       Raised (KeyError c))"
    by (simp only: eq)
  with c show ?case by blast
qed

lemma scan_refused:
  assumes "is_profile h fq query"
    and "set (candidate L E bad) \<subseteq> set printable"
    and "contains (candidate L E bad) query"
    and "highlight L color query (candidate L E bad) = Inl e"
  shows "scan L E fq color (bad # rest) h out = (out, Raised e)"
  using scan_step [OF assms(1,2), of color rest out] assms(3,4)
  by (auto simp del: scan.simps)

section \<open>The caller\<close>

lemma main_scandir_error: "scandir E = Inl e \<Longrightarrow> main L E h query color = (path_checks E, Raised e)"
  by (simp add: main_def)

lemma main_empty_query:
  "scandir E = Inr files \<Longrightarrow>
   main L E h [] color = (path_checks E @ map (\<lambda>file. Stdout (entry_path file)) files, Exited 0)"
  by (simp add: main_def)

lemma main_scan:
  assumes "scandir E = Inr files" and "query \<noteq> []" and "set query \<subseteq> set printable"
    and "\<forall>file\<in>set files. set (candidate L E file) \<subseteq> set printable"
    and "\<forall>file\<in>set files. contains (candidate L E file) query \<longrightarrow>
           highlight L color query (candidate L E file) = Inr (line file)"
  shows "main L E h query color =
           (path_checks E @ map (\<lambda>file. Stdout (line file))
                                (filter (\<lambda>file. contains (candidate L E file) query) files),
            Returned)"
proof -
  from Fuzzable_init_ok [OF assms(3), of h] obtain h1 where
    "Fuzzable_init h query = Inr (length (objs h), h1)" "is_profile h1 (length (objs h)) query"
    by blast
  with assms(1,2) scan_spec [OF this(2) assms(4,5), of "path_checks E"] show ?thesis
    by (simp add: main_def)
qed

lemma main_abort:
  assumes "scandir E = Inr (pre @ bad # rest)" and "query \<noteq> []" and "set query \<subseteq> set printable"
    and "\<forall>file\<in>set pre. set (candidate L E file) \<subseteq> set printable"
    and "\<forall>file\<in>set pre. contains (candidate L E file) query \<longrightarrow>
           highlight L color query (candidate L E file) = Inr (line file)"
    and "\<not> set (candidate L E bad) \<subseteq> set printable"
  shows "\<exists>c. c \<in> set (candidate L E bad) \<and> c \<notin> set printable \<and>
           main L E h query color =
             (path_checks E @ map (\<lambda>file. Stdout (line file))
                                  (filter (\<lambda>file. contains (candidate L E file) query) pre),
              Raised (KeyError c))"
proof -
  from Fuzzable_init_ok [OF assms(3), of h] obtain h1 where
    "Fuzzable_init h query = Inr (length (objs h), h1)" "is_profile h1 (length (objs h)) query"
    by blast
  with assms(1,2) scan_abort [OF this(2) assms(4,5,6), of rest "path_checks E"] show ?thesis
    by (simp add: main_def)
qed

lemma main_refused:
  assumes "scandir E = Inr (bad # rest)" and "query \<noteq> []" and "set query \<subseteq> set printable"
    and "set (candidate L E bad) \<subseteq> set printable"
    and "contains (candidate L E bad) query"
    and "highlight L color query (candidate L E bad) = Inl e"
  shows "main L E h query color = (path_checks E, Raised e)"
proof -
  from Fuzzable_init_ok [OF assms(3), of h] obtain h1 where
    "Fuzzable_init h query = Inr (length (objs h), h1)" "is_profile h1 (length (objs h)) query"
    by blast
  with assms(1,2) scan_refused [OF this(2) assms(4,5,6), of rest "path_checks E"] show ?thesis
    by (simp add: main_def)
qed

lemma main_query_KeyError:
  assumes "scandir E = Inr files" and "\<not> set query \<subseteq> set printable"
  shows "\<exists>c. c \<in> set query \<and> c \<notin> set printable \<and>
           main L E h query color = (path_checks E, Raised (KeyError c))"
proof -
  from assms(2) have "query \<noteq> []" by auto
  with Fuzzable_init_fail [OF assms(2), of h] assms(1) show ?thesis
    by (auto simp: main_def)
qed

section \<open>The invariant through the life of a profile\<close>

lemma ex_wf: "wf_profile ex_heap 0"
  by (simp add: wf_profile_def ex_heap_def)

lemma ex_separate: "separate ex_heap 0 1"
  by (simp add: separate_def ex_heap_def)

lemma entry_weak_inv_take:
  assumes "entry_weak_inv e" and "fst e' = fst e" and "snd e' = take m (snd e)"
  shows "entry_weak_inv e'"
proof -
  from assms(1) have "sorted_wrt (<) (take m (snd e))"
    by (simp add: entry_weak_inv_def sorted_wrt_take)
  moreover from assms(1) have "int (length (take m (snd e))) \<le> fst e"
    by (simp add: entry_weak_inv_def min_def)
  ultimately show ?thesis using assms(2,3) by (simp add: entry_weak_inv_def)
qed

lemma compare_dicts_weak_inv:
  assumes wf: "wf_profile h f1" and run: "compare_dicts h f1 f2 = Inr (b, h')"
    and g: "profile_weak_inv h g"
  shows "profile_weak_inv h' g"
proof -
  from wf have d1: "distinct (map fst (non_zero (objs h ! f1)))" by (simp add: wf_profile_def)
  from compare_dicts_frame [OF d1 run] have
    lo: "length (objs h') = length (objs h)" and
    ob: "\<And>g. g \<noteq> f1 \<Longrightarrow> objs h' ! g = objs h ! g" and
    nz: "non_zero (objs h' ! f1) = non_zero (objs h ! f1)" and
    lc: "length (cells h') = length (cells h)" and
    fs: "\<And>a. fst (cells h' ! a) = fst (cells h ! a)" and
    tk: "\<And>a. \<exists>m. snd (cells h' ! a) = take m (snd (cells h ! a))"
    by blast+
  have same: "non_zero (objs h' ! g) = non_zero (objs h ! g)"
    using nz ob by (cases "g = f1") simp_all
  have "entry_weak_inv (cells h' ! a)" if "entry_weak_inv (cells h ! a)" for a
  proof -
    from tk obtain m where "snd (cells h' ! a) = take m (snd (cells h ! a))" by blast
    with that fs show ?thesis by (rule entry_weak_inv_take)
  qed
  with g show ?thesis
    unfolding profile_weak_inv_def wf_profile_def list_all_iff
    by (auto simp: same lo lc)
qed

lemma compare_dicts_keeps_inv:
  assumes wf: "wf_profile h f1" and run: "compare_dicts h f1 f2 = Inr (b, h')"
    and g: "profile_inv h g" and sep: "separate h f1 g"
  shows "profile_inv h' g"
proof -
  from wf have d1: "distinct (map fst (non_zero (objs h ! f1)))" by (simp add: wf_profile_def)
  from compare_dicts_frame [OF d1 run] have
    lo: "length (objs h') = length (objs h)" and
    ob: "\<And>g. g \<noteq> f1 \<Longrightarrow> objs h' ! g = objs h ! g" and
    lc: "length (cells h') = length (cells h)" and
    un: "\<And>a. a \<notin> snd ` set (non_zero (objs h ! f1)) \<Longrightarrow> cells h' ! a = cells h ! a"
    by blast+
  from sep have ne: "g \<noteq> f1"
    and dis: "\<And>c a. (c, a) \<in> set (non_zero (objs h ! g)) \<Longrightarrow> a \<notin> snd ` set (non_zero (objs h ! f1))"
    by (auto simp: separate_def list_all_iff)
  from g show ?thesis
    unfolding profile_inv_def wf_profile_def list_all_iff
    using lo lc by (auto simp: ob [OF ne] un [OF dis])
qed

lemma init_compare_breaks_inv:
  "\<exists>f1 h1 f2 h2 h3.
     Fuzzable_init empty_heap (str ''aab'') = Inr (f1, h1) \<and>
     Fuzzable_init h1 (str ''ab'') = Inr (f2, h2) \<and>
     compare_dicts h2 f1 f2 = Inr (True, h3) \<and> profile_inv h2 f1 \<and> \<not> profile_inv h3 f1"
proof -
  have pr: "set (str ''aab'') \<subseteq> set printable" "set (str ''ab'') \<subseteq> set printable"
    by (simp_all add: str_def set_printable)
  from Fuzzable_init_ok [OF pr(1), of empty_heap] obtain f1 h1 where
    i1: "Fuzzable_init empty_heap (str ''aab'') = Inr (f1, h1)" and
    p1: "is_profile h1 f1 (str ''aab'')" by blast
  from Fuzzable_init_ok [OF pr(2), of h1] obtain ob cs where
    i2: "Fuzzable_init h1 (str ''ab'') =
      Inr (length (objs h1), \<lparr>cells = cells h1 @ cs, objs = objs h1 @ [ob]\<rparr>)" and
    p2: "is_profile \<lparr>cells = cells h1 @ cs, objs = objs h1 @ [ob]\<rparr> (length (objs h1)) (str ''ab'')"
    by blast
  define h2 where "h2 = \<lparr>cells = cells h1 @ cs, objs = objs h1 @ [ob]\<rparr>"
  have p1': "is_profile h2 f1 (str ''aab'')"
    unfolding h2_def using p1 by (rule is_profile_extend)
  have c: "contains (str ''aab'') (str ''ab'')" by (simp add: contains_def str_def)
  from compare_profiles [OF p1' p2 [folded h2_def]] c obtain h3 where
    run: "compare_dicts h2 f1 (length (objs h1)) = Inr (True, h3)" and
    ex: "\<And>c a. map_of (non_zero (objs h2 ! f1)) c = Some a \<Longrightarrow> c \<in> set (str ''ab'') \<Longrightarrow>
      cells h3 ! a = (int (count_list (str ''aab'') c), take (count_list (str ''ab'') c) (occ 0 (str ''aab'') c))"
    by auto
  from is_profile_lookup [OF p1', of 97] obtain a where
    a: "map_of (non_zero (objs h2 ! f1)) 97 = Some a" by (auto simp: str_def)
  from ex [OF a] have "cells h3 ! a = (2, [0])" by (simp add: str_def occ_def)
  then have bad: "\<not> entry_inv (cells h3 ! a)" by (simp add: entry_inv_def)
  from compare_dicts_frame [OF is_profile_distinct [OF p1'] run]
  have "non_zero (objs h3 ! f1) = non_zero (objs h2 ! f1)" by blast
  with a have "(97, a) \<in> set (non_zero (objs h3 ! f1))" by (auto dest: map_of_SomeD)
  with bad have "\<not> profile_inv h3 f1"
    by (auto simp: profile_inv_def list_all_iff)
  with i1 i2 [folded h2_def] run is_profile_inv [OF p1'] show ?thesis by blast
qed

text \<open>
  Claim C3, as the specification states it, fails: \<open>compare_dicts\<close> cuts the candidate's
  position list to the query's count and leaves the recorded count as it was. For
  \<open>aab\<close> against \<open>ab\<close> the entry of \<open>a\<close> is \<open>[2, [0, 1]]\<close> before and \<open>[2, [0]]\<close>
  after the comparison: one position, count 2. The first conjunct runs the constructor
  and the comparison from the empty heap, the others show the entries on the example heap.
\<close>

theorem invariant_broken_by_compare:
  "(\<exists>f1 h1 f2 h2 h3.
      Fuzzable_init empty_heap (str ''aab'') = Inr (f1, h1) \<and>
      Fuzzable_init h1 (str ''ab'') = Inr (f2, h2) \<and>
      compare_dicts h2 f1 f2 = Inr (True, h3) \<and> profile_inv h2 f1 \<and> \<not> profile_inv h3 f1) \<and>
   is_profile ex_heap 0 (str ''aab'') \<and> is_profile ex_heap 1 (str ''ab'') \<and>
   profile_inv ex_heap 0 \<and>
   compare_dicts ex_heap 0 1 = Inr (True, ex_heap_matched) \<and>
   count_of ex_heap_matched 0 97 = Some 2 \<and>
   positions_of ex_heap_matched 0 97 = Some [0] \<and>
   \<not> profile_inv ex_heap_matched 0"
proof -
  have "count_of ex_heap_matched 0 97 = Some 2" "positions_of ex_heap_matched 0 97 = Some [0]"
    by (simp_all add: count_of_def positions_of_def ex_heap_matched_def)
  moreover have "\<not> profile_inv ex_heap_matched 0"
    by (simp add: profile_inv_def entry_inv_def ex_heap_matched_def)
  ultimately show ?thesis
    using init_compare_breaks_inv ex_is_profile ex_profile_inv(1) ex_compare by simp
qed

text \<open>
  Claim C3, amended. The profile \<open>__init__\<close> returns satisfies the invariant (positions
  strictly increasing, as many as the count), and the profiles that were in the heap keep
  it. A comparison keeps, for every profile, the positions strictly increasing and at
  most as many as the count; it keeps the full invariant for every profile that is
  separate from the candidate (the query, for one).
\<close>

theorem invariant_lifecycle:
  "(set s \<subseteq> set printable \<longrightarrow>
      (\<exists>f h1. Fuzzable_init h s = Inr (f, h1) \<and> profile_inv h1 f \<and>
               (\<forall>g. profile_inv h g \<longrightarrow> profile_inv h1 g))) \<and>
   (wf_profile h f1 \<and> compare_dicts h f1 f2 = Inr (b, h') \<longrightarrow>
      (\<forall>g. profile_weak_inv h g \<longrightarrow> profile_weak_inv h' g) \<and>
      (\<forall>g. profile_inv h g \<and> separate h f1 g \<longrightarrow> profile_inv h' g))"
proof (intro conjI impI allI)
  assume "set s \<subseteq> set printable"
  from Fuzzable_init_ok [OF this, of h] obtain ob cs where
    "Fuzzable_init h s = Inr (length (objs h), \<lparr>cells = cells h @ cs, objs = objs h @ [ob]\<rparr>)"
    "is_profile \<lparr>cells = cells h @ cs, objs = objs h @ [ob]\<rparr> (length (objs h)) s"
    by blast
  then show "\<exists>f h1. Fuzzable_init h s = Inr (f, h1) \<and> profile_inv h1 f \<and>
      (\<forall>g. profile_inv h g \<longrightarrow> profile_inv h1 g)"
    by (auto dest: is_profile_inv intro: profile_inv_extend)
next
  fix g assume "wf_profile h f1 \<and> compare_dicts h f1 f2 = Inr (b, h')" "profile_weak_inv h g"
  then show "profile_weak_inv h' g" by (auto intro: compare_dicts_weak_inv)
next
  fix g assume "wf_profile h f1 \<and> compare_dicts h f1 f2 = Inr (b, h')"
    "profile_inv h g \<and> separate h f1 g"
  then show "profile_inv h' g" by (auto intro: compare_dicts_keeps_inv)
qed

text \<open>
  Witness for C3: \<open>ab\<close> is profiled with the invariant; after \<open>aab\<close> against \<open>ab\<close> the
  candidate has the weaker property and the query the invariant.
\<close>

theorem invariant_lifecycle_witness:
  "set (str ''ab'') \<subseteq> set printable \<and>
   (\<exists>f h1. Fuzzable_init empty_heap (str ''ab'') = Inr (f, h1) \<and> profile_inv h1 f) \<and>
   wf_profile ex_heap 0 \<and> compare_dicts ex_heap 0 1 = Inr (True, ex_heap_matched) \<and>
   profile_weak_inv ex_heap 0 \<and> profile_weak_inv ex_heap_matched 0 \<and>
   profile_inv ex_heap 1 \<and> separate ex_heap 0 1 \<and> profile_inv ex_heap_matched 1"
proof -
  have pr: "set (str ''ab'') \<subseteq> set printable"
    by (simp add: str_def set_printable)
  have w: "profile_weak_inv ex_heap 0"
    by (simp add: profile_weak_inv_def wf_profile_def entry_weak_inv_def ex_heap_def)
  from invariant_lifecycle [of "str ''ab''" empty_heap] pr
  have "\<exists>f h1. Fuzzable_init empty_heap (str ''ab'') = Inr (f, h1) \<and> profile_inv h1 f"
    by blast
  moreover from invariant_lifecycle [of _ ex_heap 0 1 True ex_heap_matched] ex_wf ex_compare
  have "(\<forall>g. profile_weak_inv ex_heap g \<longrightarrow> profile_weak_inv ex_heap_matched g) \<and>
      (\<forall>g. profile_inv ex_heap g \<and> separate ex_heap 0 g \<longrightarrow> profile_inv ex_heap_matched g)"
    by blast
  with w ex_profile_inv(2) ex_separate
  have "profile_weak_inv ex_heap_matched 0" "profile_inv ex_heap_matched 1" by blast+
  ultimately show ?thesis
    using pr w ex_wf ex_compare ex_profile_inv(2) ex_separate by simp
qed

section \<open>A candidate that is compared twice\<close>

lemma profile_inv_weak: "profile_inv h f \<Longrightarrow> profile_weak_inv h f"
  by (auto simp: profile_inv_def profile_weak_inv_def entry_inv_def entry_weak_inv_def
      list_all_iff)

lemma init_compare_twice:
  "\<exists>f1 h1 f2 h2 h3 f3 h4 h5.
     Fuzzable_init empty_heap (str ''aab'') = Inr (f1, h1) \<and>
     Fuzzable_init h1 (str ''ab'') = Inr (f2, h2) \<and>
     compare_dicts h2 f1 f2 = Inr (True, h3) \<and>
     Fuzzable_init h3 (str ''aa'') = Inr (f3, h4) \<and>
     count_of h4 f3 97 = Some 2 \<and>
     compare_dicts h4 f1 f3 = Inr (True, h5) \<and>
     shared_positions h5 f1 97 = Some [0]"
proof -
  have pr: "set (str ''aab'') \<subseteq> set printable" "set (str ''ab'') \<subseteq> set printable"
    "set (str ''aa'') \<subseteq> set printable"
    by (simp_all add: str_def set_printable)
  from Fuzzable_init_ok [OF pr(1), of empty_heap] obtain f1 h1 where
    i1: "Fuzzable_init empty_heap (str ''aab'') = Inr (f1, h1)" and
    p1: "is_profile h1 f1 (str ''aab'')" by blast
  from Fuzzable_init_ok [OF pr(2), of h1] obtain ob cs where
    i2: "Fuzzable_init h1 (str ''ab'') =
      Inr (length (objs h1), \<lparr>cells = cells h1 @ cs, objs = objs h1 @ [ob]\<rparr>)" and
    p2: "is_profile \<lparr>cells = cells h1 @ cs, objs = objs h1 @ [ob]\<rparr> (length (objs h1)) (str ''ab'')"
    by blast
  define h2 where "h2 = \<lparr>cells = cells h1 @ cs, objs = objs h1 @ [ob]\<rparr>"
  have p1': "is_profile h2 f1 (str ''aab'')"
    unfolding h2_def using p1 by (rule is_profile_extend)
  have c: "contains (str ''aab'') (str ''ab'')" by (simp add: contains_def str_def)
  from compare_profiles [OF p1' p2 [folded h2_def]] c obtain h3 where
    run: "compare_dicts h2 f1 (length (objs h1)) = Inr (True, h3)" and
    ex: "\<And>c a. map_of (non_zero (objs h2 ! f1)) c = Some a \<Longrightarrow> c \<in> set (str ''ab'') \<Longrightarrow>
      cells h3 ! a = (int (count_list (str ''aab'') c), take (count_list (str ''ab'') c) (occ 0 (str ''aab'') c))"
    by auto
  from is_profile_lookup [OF p1', of 97] obtain a where
    a: "map_of (non_zero (objs h2 ! f1)) 97 = Some a" by (auto simp: str_def)
  from ex [OF a] have cell3: "cells h3 ! a = (2, [0])" by (simp add: str_def occ_def)
  note d2 = is_profile_distinct [OF p1']
  from compare_dicts_frame [OF d2 run]
  have nz3: "non_zero (objs h3 ! f1) = non_zero (objs h2 ! f1)" by blast
  from p1' have wf2: "wf_profile h2 f1" by (simp add: is_profile_def)
  have w3: "profile_weak_inv h3 f1"
    using wf2 run profile_inv_weak [OF is_profile_inv [OF p1']] by (rule compare_dicts_weak_inv)
  then have wf3: "wf_profile h3 f1" by (simp add: profile_weak_inv_def)
  from a nz3 have in3: "(97, a) \<in> set (non_zero (objs h3 ! f1))" by (auto dest: map_of_SomeD)
  with wf3 have a_lt: "a < length (cells h3)" and f1_lt: "f1 < length (objs h3)"
    by (auto simp: wf_profile_def list_all_iff)
  from Fuzzable_init_ok [OF pr(3), of h3] obtain ob' cs' where
    i3: "Fuzzable_init h3 (str ''aa'') =
      Inr (length (objs h3), \<lparr>cells = cells h3 @ cs', objs = objs h3 @ [ob']\<rparr>)" and
    p3: "is_profile \<lparr>cells = cells h3 @ cs', objs = objs h3 @ [ob']\<rparr> (length (objs h3)) (str ''aa'')"
    by blast
  define h4 where "h4 = \<lparr>cells = cells h3 @ cs', objs = objs h3 @ [ob']\<rparr>"
  define f3 where "f3 = length (objs h3)"
  note i3 = i3 [folded h4_def f3_def] and p3 = p3 [folded h4_def f3_def]
  have wf4: "wf_profile h4 f1"
    unfolding h4_def using wf3 by (rule wf_profile_extend)
  have nz4: "non_zero (objs h4 ! f1) = non_zero (objs h2 ! f1)"
    using f1_lt nz3 by (simp add: h4_def nth_append)
  have cell4: "cells h4 ! a = (2, [0])"
    using a_lt cell3 by (simp add: h4_def nth_append)
  from is_profile_lookup [OF p3, of 97] obtain a3 where
    a3: "map_of (non_zero (objs h4 ! f3)) 97 = Some a3" by (auto simp: str_def)
  from is_profile_cell [OF p3 a3] have cell_q: "cells h4 ! a3 = (2, [0, 1])"
    by (simp add: str_def occ_def)
  have cnt: "count_of h4 f3 97 = Some 2"
    using a3 cell_q by (simp add: count_of_def)
  have k3: "fst ` set (non_zero (objs h4 ! f3)) = {97}"
    using is_profile_keys [OF p3] by (simp add: str_def)
  note d4 = is_profile_distinct [OF p1', folded nz4]
  note d3 = is_profile_distinct [OF p3]
  have a4: "map_of (non_zero (objs h4 ! f1)) 97 = Some a" using a nz4 by simp
  then have "97 \<in> fst ` set (non_zero (objs h4 ! f1))"
    by (metis map_of_eq_None_iff option.distinct(1))
  with compare_dicts_verdict [OF d4 d3] obtain h5 where
    run2: "compare_dicts h4 f1 f3 = Inr (True, h5)"
    by (auto simp: k3 a4 a3 cell4 cell_q)
  from compare_dicts_exact [OF wf4 d3 run2] a4 a3 have
    sh: "shared (objs h5 ! f1) =
      Some (filter (\<lambda>(x, y). x \<in> fst ` set (non_zero (objs h4 ! f3))) (non_zero (objs h4 ! f1)))"
    and "cells h5 ! a = (fst (cells h4 ! a), slice_to (snd (cells h4 ! a)) (fst (cells h4 ! a3)))"
    by blast+
  then have cell5: "cells h5 ! a = (2, [0])"
    by (simp add: cell4 cell_q slice_to_def)
  have "shared_positions h5 f1 97 = Some [0]"
    by (simp add: shared_positions_def sh map_of_filter_key k3 a4 cell5)
  with i1 i2 [folded h2_def] run i3 cnt run2 show ?thesis by blast
qed

text \<open>
  Claim C2, as stated for every comparison that succeeds, fails for a candidate that was
  matched before: the first match has cut its position list, and the count it recorded
  still passes the check. \<open>aab\<close> is compared with \<open>ab\<close> and then with \<open>aa\<close>: the
  second comparison returns \<open>True\<close> and marks the one position 0 for \<open>a\<close>, where the
  query counts two and the leftmost two occurrences are 0 and 1. The first conjunct runs
  the constructor and the comparisons from the empty heap, the others show the second
  comparison on the example heap.
\<close>

theorem second_match_marks_too_few:
  "(\<exists>f1 h1 f2 h2 h3 f3 h4 h5.
      Fuzzable_init empty_heap (str ''aab'') = Inr (f1, h1) \<and>
      Fuzzable_init h1 (str ''ab'') = Inr (f2, h2) \<and>
      compare_dicts h2 f1 f2 = Inr (True, h3) \<and>
      Fuzzable_init h3 (str ''aa'') = Inr (f3, h4) \<and>
      count_of h4 f3 97 = Some 2 \<and>
      compare_dicts h4 f1 f3 = Inr (True, h5) \<and>
      shared_positions h5 f1 97 = Some [0]) \<and>
   is_profile ex_heap_compared 3 (str ''aa'') \<and>
   count_of ex_heap_compared 3 97 = Some 2 \<and>
   occ 0 (str ''aab'') 97 = [0, 1] \<and>
   compare_dicts ex_heap_compared 0 3 =
     Inr (True, ex_heap_compared\<lparr>objs := (objs ex_heap_compared)
                 [0 := (objs ex_heap_compared ! 0)\<lparr>shared := Some [(97, 0)]\<rparr>]\<rparr>) \<and>
   shared_positions
     (ex_heap_compared\<lparr>objs := (objs ex_heap_compared)
        [0 := (objs ex_heap_compared ! 0)\<lparr>shared := Some [(97, 0)]\<rparr>]\<rparr>) 0 97 = Some [0]"
proof -
  have "is_profile ex_heap_compared 3 (str ''aa'')"
    by (simp add: is_profile_def wf_profile_def ex_heap_compared_def str_def occ_def
        printable_def)
  moreover have "count_of ex_heap_compared 3 97 = Some 2"
    by (simp add: count_of_def ex_heap_compared_def)
  moreover have "occ 0 (str ''aab'') 97 = [0, 1]" by (simp add: occ_def str_def)
  moreover have "shared_positions
     (ex_heap_compared\<lparr>objs := (objs ex_heap_compared)
        [0 := (objs ex_heap_compared ! 0)\<lparr>shared := Some [(97, 0)]\<rparr>]\<rparr>) 0 97 = Some [0]"
    by (simp add: shared_positions_def ex_heap_compared_def)
  ultimately show ?thesis
    using init_compare_twice ex_compare_second by simp
qed

section \<open>A string matches itself\<close>

text \<open>
  Claim C8. For every string the constructor accepts, comparing its profile with a second
  profile built from the same string returns \<open>True\<close>, and so does comparing the profile
  with itself, the same object in both places. (The empty string is no exception.)
\<close>

theorem compare_dicts_reflexive:
  assumes "set s \<subseteq> set printable"
  shows "\<exists>f1 h1 f2 h2 h3 h4.
           Fuzzable_init h s = Inr (f1, h1) \<and> Fuzzable_init h1 s = Inr (f2, h2) \<and>
           compare_dicts h2 f1 f2 = Inr (True, h3) \<and> compare_dicts h1 f1 f1 = Inr (True, h4)"
proof -
  from Fuzzable_init_ok [OF assms, of h] obtain f1 h1 where
    i1: "Fuzzable_init h s = Inr (f1, h1)" and p1: "is_profile h1 f1 s" by blast
  from Fuzzable_init_ok [OF assms, of h1] obtain ob cs where
    i2: "Fuzzable_init h1 s = Inr (length (objs h1), \<lparr>cells = cells h1 @ cs, objs = objs h1 @ [ob]\<rparr>)"
    and p2: "is_profile \<lparr>cells = cells h1 @ cs, objs = objs h1 @ [ob]\<rparr> (length (objs h1)) s"
    by blast
  define h2 where "h2 = \<lparr>cells = cells h1 @ cs, objs = objs h1 @ [ob]\<rparr>"
  have p1': "is_profile h2 f1 s"
    unfolding h2_def using p1 by (rule is_profile_extend)
  have refl: "contains s s" by (simp add: contains_iff)
  from compare_profiles [OF p1' p2 [folded h2_def]] refl obtain h3 where
    "compare_dicts h2 f1 (length (objs h1)) = Inr (True, h3)" by auto
  moreover from compare_profiles [OF p1 p1] refl obtain h4 where
    "compare_dicts h1 f1 f1 = Inr (True, h4)" by auto
  ultimately show ?thesis using i1 i2 [folded h2_def] by blast
qed

text \<open>Witness for C8: the string \<open>aab\<close>.\<close>

theorem compare_dicts_reflexive_witness:
  "set (str ''aab'') \<subseteq> set printable \<and>
   (\<exists>f1 h1 f2 h2 h3 h4.
      Fuzzable_init empty_heap (str ''aab'') = Inr (f1, h1) \<and>
      Fuzzable_init h1 (str ''aab'') = Inr (f2, h2) \<and>
      compare_dicts h2 f1 f2 = Inr (True, h3) \<and> compare_dicts h1 f1 f1 = Inr (True, h4))"
proof -
  have pr: "set (str ''aab'') \<subseteq> set printable"
    by (simp add: str_def set_printable)
  from compare_dicts_reflexive [OF pr, of empty_heap] pr show ?thesis by simp
qed

section \<open>The counts add up to the length\<close>

lemma is_profile_total_count:
  assumes "is_profile h f s"
  shows "total_count h f = int (length s)"
proof -
  let ?nz = "non_zero (objs h ! f)"
  from assms have sub: "set s \<subseteq> set printable"
    and keys: "map fst ?nz = filter (\<lambda>c. c \<in> set s) printable"
    and vals: "\<forall>(c, a)\<in>set ?nz. cells h ! a = (int (count_list s c), occ 0 s c)"
    by (simp_all add: is_profile_def list_all_iff)
  have "map (\<lambda>(c, a). fst (cells h ! a)) ?nz = map (\<lambda>(c, a). int (count_list s c)) ?nz"
    using vals by (intro map_cong refl) auto
  also have "\<dots> = map (\<lambda>c. int (count_list s c)) (map fst ?nz)"
    by (simp add: case_prod_unfold)
  finally have "total_count h f =
      sum_list (map (\<lambda>c. int (count_list s c)) (filter (\<lambda>c. c \<in> set s) printable))"
    by (simp only: total_count_def keys)
  also have "\<dots> = sum (\<lambda>c. int (count_list s c)) (set (filter (\<lambda>c. c \<in> set s) printable))"
    by (rule sum_list_distinct_conv_sum_set) (simp add: distinct_printable)
  also from sub have "set (filter (\<lambda>c. c \<in> set s) printable) = set s" by auto
  also have "sum (\<lambda>c. int (count_list s c)) (set s) = int (sum (count_list s) (set s))"
    by simp
  also have "sum (count_list s) (set s) = length s"
    by (rule sum_count_set) simp_all
  finally show ?thesis .
qed

text \<open>
  Claim C9. For every string the constructor accepts, the counts of the profile it
  returns add up to the length of the string.
\<close>

theorem profile_counts_sum_to_length:
  assumes "set s \<subseteq> set printable"
  shows "\<exists>f h'. Fuzzable_init h s = Inr (f, h') \<and> total_count h' f = int (length s)"
proof -
  from Fuzzable_init_ok [OF assms, of h] obtain f h' where
    "Fuzzable_init h s = Inr (f, h')" "is_profile h' f s" by blast
  then show ?thesis by (auto dest: is_profile_total_count)
qed

text \<open>Witness for C9: the counts of \<open>apple.txt\<close> add up to 9.\<close>

theorem profile_counts_sum_to_length_witness:
  "set (str ''apple.txt'') \<subseteq> set printable \<and>
   (\<exists>f h'. Fuzzable_init empty_heap (str ''apple.txt'') = Inr (f, h') \<and> total_count h' f = 9)"
proof -
  have pr: "set (str ''apple.txt'') \<subseteq> set printable"
    by (simp add: str_def set_printable)
  from profile_counts_sum_to_length [OF pr, of empty_heap] pr show ?thesis
    by (simp add: str_def)
qed

section \<open>The comparison and its second argument\<close>

lemma init_compare_same_object:
  "\<exists>f h h'. Fuzzable_init empty_heap (str ''ab'') = Inr (f, h) \<and>
     shared (objs h ! f) = None \<and> compare_dicts h f f = Inr (True, h') \<and>
     shared (objs h' ! f) = Some (non_zero (objs h ! f))"
proof -
  have "set (str ''ab'') \<subseteq> set printable" by (simp add: str_def set_printable)
  from Fuzzable_init_ok [OF this, of empty_heap] obtain ob cs where
    i: "Fuzzable_init empty_heap (str ''ab'') =
      Inr (length (objs empty_heap),
           \<lparr>cells = cells empty_heap @ cs, objs = objs empty_heap @ [ob]\<rparr>)" and
    p: "is_profile \<lparr>cells = cells empty_heap @ cs, objs = objs empty_heap @ [ob]\<rparr>
          (length (objs empty_heap)) (str ''ab'')" and
    n: "shared ob = None"
    by blast
  define h where "h = \<lparr>cells = cells empty_heap @ cs, objs = objs empty_heap @ [ob]\<rparr>"
  define f where "f = length (objs empty_heap)"
  note i = i [folded h_def f_def] and p = p [folded h_def f_def]
  have n': "shared (objs h ! f) = None" using n by (simp add: h_def f_def)
  have "contains (str ''ab'') (str ''ab'')" by (simp add: contains_iff)
  with compare_profiles [OF p p] obtain h' where
    "compare_dicts h f f = Inr (True, h')"
    "shared (objs h' ! f) =
       Some (filter (\<lambda>(c, a). c \<in> set (str ''ab'')) (non_zero (objs h ! f)))"
    by auto
  moreover have "fst x \<in> set (str ''ab'')" if "x \<in> set (non_zero (objs h ! f))" for x
    using that is_profile_keys [OF p] by (metis imageI)
  then have "filter (\<lambda>(c, a). c \<in> set (str ''ab'')) (non_zero (objs h ! f)) =
      non_zero (objs h ! f)"
    by (auto simp: filter_id_conv)
  ultimately show ?thesis using i n' by auto
qed

text \<open>
  Claim C10, as stated for every pair of profiles, fails when the two arguments are the
  same object: \<open>fuzz1.shared = common_dict\<close> then assigns the field on the query too.
  The profile of \<open>ab\<close> is compared with itself: first as the constructor returns it
  from the empty heap, then as object 1 of the example heap.
\<close>

theorem compare_dicts_same_object_sets_shared:
  "(\<exists>f h h'. Fuzzable_init empty_heap (str ''ab'') = Inr (f, h) \<and>
      shared (objs h ! f) = None \<and> compare_dicts h f f = Inr (True, h') \<and>
      shared (objs h' ! f) = Some (non_zero (objs h ! f))) \<and>
   shared (objs ex_heap ! 1) = None \<and>
   compare_dicts ex_heap 1 1 =
     Inr (True, ex_heap\<lparr>objs := (objs ex_heap)
                 [1 := (objs ex_heap ! 1)\<lparr>shared := Some [(97, 2), (98, 3)]\<rparr>]\<rparr>)"
proof -
  have "shared (objs ex_heap ! 1) = None \<and>
    compare_dicts ex_heap 1 1 =
      Inr (True, ex_heap\<lparr>objs := (objs ex_heap)
                  [1 := (objs ex_heap ! 1)\<lparr>shared := Some [(97, 2), (98, 3)]\<rparr>]\<rparr>)"
    by (simp add: compare_dicts_def ex_heap_def dict_comp_def set_cell_def slice_to_def Let_def)
  with init_compare_same_object show ?thesis by simp
qed

text \<open>
  Claim C10, amended. When the query is separate from the candidate (another object, no
  entry object in common, as for any two profiles the constructor built), the comparison
  leaves the query object as it was, the \<open>shared\<close> field included, and every count and
  every position list of the query, whatever the verdict.
\<close>

theorem compare_dicts_query_unchanged:
  assumes wf: "wf_profile h f1" and sep: "separate h f1 f2"
    and run: "compare_dicts h f1 f2 = Inr (b, h')"
  shows "objs h' ! f2 = objs h ! f2 \<and>
         (\<forall>c. count_of h' f2 c = count_of h f2 c \<and> positions_of h' f2 c = positions_of h f2 c)"
proof -
  from wf have d1: "distinct (map fst (non_zero (objs h ! f1)))" by (simp add: wf_profile_def)
  from compare_dicts_frame [OF d1 run] have
    ob: "\<And>g. g \<noteq> f1 \<Longrightarrow> objs h' ! g = objs h ! g" and
    un: "\<And>a. a \<notin> snd ` set (non_zero (objs h ! f1)) \<Longrightarrow> cells h' ! a = cells h ! a"
    by blast+
  from sep have ne: "f2 \<noteq> f1"
    and dis: "\<And>c a. (c, a) \<in> set (non_zero (objs h ! f2)) \<Longrightarrow> a \<notin> snd ` set (non_zero (objs h ! f1))"
    by (auto simp: separate_def list_all_iff)
  have same: "objs h' ! f2 = objs h ! f2" using ne by (rule ob)
  have "count_of h' f2 c = count_of h f2 c \<and> positions_of h' f2 c = positions_of h f2 c" for c
  proof (cases "map_of (non_zero (objs h ! f2)) c")
    case None
    then show ?thesis by (simp add: count_of_def positions_of_def same)
  next
    case (Some a)
    then have "(c, a) \<in> set (non_zero (objs h ! f2))" by (rule map_of_SomeD)
    from un [OF dis [OF this]] Some show ?thesis
      by (simp add: count_of_def positions_of_def same)
  qed
  with same show ?thesis by blast
qed

text \<open>Witness for C10: \<open>aab\<close> against \<open>ab\<close>; the query keeps \<open>a\<close> once, at 0.\<close>

theorem compare_dicts_query_unchanged_witness:
  "wf_profile ex_heap 0 \<and> separate ex_heap 0 1 \<and>
   compare_dicts ex_heap 0 1 = Inr (True, ex_heap_matched) \<and>
   objs ex_heap_matched ! 1 = objs ex_heap ! 1 \<and>
   count_of ex_heap_matched 1 97 = Some 1 \<and> positions_of ex_heap_matched 1 97 = Some [0]"
proof -
  have "count_of ex_heap 1 97 = Some 1" "positions_of ex_heap 1 97 = Some [0]"
    by (simp_all add: count_of_def positions_of_def ex_heap_def)
  with compare_dicts_query_unchanged [OF ex_wf ex_separate ex_compare]
  show ?thesis using ex_wf ex_separate ex_compare by simp
qed

section \<open>The empty query\<close>

lemma is_profile_empty: "is_profile h f [] \<Longrightarrow> non_zero (objs h ! f) = []"
  by (simp add: is_profile_def)

text \<open>
  Claim C4. The constructor profiles the empty query; against that profile every
  candidate object compares \<open>True\<close>, with an empty \<open>shared\<close> dict and no entry
  changed; and \<open>main\<close>, given the empty query, prints the path of every directory entry
  as it is and exits with code 0, whatever the names are: no profile is made, nothing is
  compared.
\<close>

theorem empty_query_matches_all:
  "(\<exists>f2 h1. Fuzzable_init h [] = Inr (f2, h1) \<and> is_profile h1 f2 []) \<and>
   (is_profile h f2 [] \<and> f1 < length (objs h) \<longrightarrow>
      (\<exists>h'. compare_dicts h f1 f2 = Inr (True, h') \<and> shared (objs h' ! f1) = Some [] \<and>
            cells h' = cells h)) \<and>
   (scandir E = Inr files \<longrightarrow>
      main L E h [] color =
        (path_checks E @ map (\<lambda>file. Stdout (entry_path file)) files, Exited 0))"
proof (intro conjI impI)
  have "set [] \<subseteq> set printable" by simp
  from Fuzzable_init_ok [OF this, of h]
  show "\<exists>f2 h1. Fuzzable_init h [] = Inr (f2, h1) \<and> is_profile h1 f2 []" by blast
next
  assume "is_profile h f2 [] \<and> f1 < length (objs h)"
  then have "non_zero (objs h ! f2) = []" and "f1 < length (objs h)"
    by (simp_all add: is_profile_empty)
  then have "compare_dicts h f1 f2 =
      Inr (True, h\<lparr>objs := (objs h)[f1 := (objs h ! f1)\<lparr>shared := Some []\<rparr>]\<rparr>)"
    by (simp add: compare_dicts_def dict_comp_def)
  with \<open>f1 < length (objs h)\<close>
  show "\<exists>h'. compare_dicts h f1 f2 = Inr (True, h') \<and> shared (objs h' ! f1) = Some [] \<and>
      cells h' = cells h"
    by simp
next
  assume "scandir E = Inr files"
  then show "main L E h [] color =
      (path_checks E @ map (\<lambda>file. Stdout (entry_path file)) files, Exited 0)"
    by (rule main_empty_query)
qed

text \<open>
  Witness for C4: object 2 of the example heap is the profile of the empty query, and the
  directory with the entry named by code point 233 is listed.
\<close>

theorem empty_query_matches_all_witness:
  "is_profile ex_heap 2 [] \<and>
   (\<exists>h'. compare_dicts ex_heap 0 2 = Inr (True, h') \<and> shared (objs h' ! 0) = Some []) \<and>
   scandir ex_env = Inr ex_entries \<and>
   main ex_lib ex_env empty_heap [] (str ''red'') =
     ([Stdout (str ''/d/a''), Stdout (str ''/d/'' @ [233])], Exited 0)"
proof -
  have p: "is_profile ex_heap 2 []"
    by (simp add: is_profile_def wf_profile_def ex_heap_def)
  have l: "(0::nat) < length (objs ex_heap)" by (simp add: ex_heap_def)
  have s: "scandir ex_env = Inr ex_entries" by (simp add: ex_env_def)
  note fact = empty_query_matches_all [of ex_heap 2 0 ex_env ex_entries ex_lib "str ''red''"]
  from fact p l have "\<exists>h'. compare_dicts ex_heap 0 2 = Inr (True, h') \<and> shared (objs h' ! 0) = Some []"
    by blast
  moreover from empty_query_matches_all [of empty_heap 2 0 ex_env ex_entries ex_lib "str ''red''"] s
  have "main ex_lib ex_env empty_heap [] (str ''red'') =
      (path_checks ex_env @ map (\<lambda>file. Stdout (entry_path file)) ex_entries, Exited 0)"
    by blast
  then have "main ex_lib ex_env empty_heap [] (str ''red'') =
      ([Stdout (str ''/d/a''), Stdout (str ''/d/'' @ [233])], Exited 0)"
    by (simp add: path_checks_def ex_env_def ex_entries_def)
  ultimately show ?thesis using p s by simp
qed

section \<open>The examples of the caller\<close>

lemma color_argument_simps:
  "color_argument None = str ''r''" "color_argument (Some name) = name"
  by (simp_all add: color_argument_def str_def)

lemma ex_candidates:
  "candidate ex_lib ex_env \<lparr>entry_name = str ''a'', entry_path = p\<rparr> = str ''/d/a''"
  "candidate ex_lib ex_env \<lparr>entry_name = [233], entry_path = p\<rparr> = str ''/d/'' @ [233]"
  by (simp_all add: candidate_def ex_lib_def ex_env_def str_def)

lemma ex_printable:
  "set (str ''a'') \<subseteq> set printable" "set (str ''/d/a'') \<subseteq> set printable"
  "\<not> set (str ''/d/'' @ [233]) \<subseteq> set printable"
  by (simp_all add: str_def set_printable)

lemma ex_contains: "contains (str ''/d/a'') (str ''a'')"
  by (simp add: contains_def str_def)

lemma ex_matched_indexes: "matched_indexes (str ''/d/a'') (str ''a'') = [3]"
  by (simp add: matched_indexes_def occ_def str_def printable_def)

lemma ex_highlight:
  "highlight ex_lib (str ''red'') (str ''a'') (str ''/d/a'') = Inr (str ''/d/[a]'')"
  unfolding highlight_def ex_matched_indexes
  by (simp add: ex_lib_def ex_colors_def str_def)

lemma ex_highlight_refused:
  "highlight ex_lib (str ''r'') (str ''a'') (str ''/d/a'') = Inl (KeyError_color (str ''r''))"
  unfolding highlight_def ex_matched_indexes
  by (simp add: ex_lib_def ex_colors_def str_def)

lemma ex_abort:
  "main ex_lib ex_env h (str ''a'') (str ''red'') =
     ([Stdout (str ''/d/[a]'')], Raised (KeyError 233))"
proof -
  let ?a = "\<lparr>entry_name = str ''a'', entry_path = str ''/d/a''\<rparr>"
  let ?e = "\<lparr>entry_name = [233], entry_path = str ''/d/'' @ [233]\<rparr>"
  have 1: "scandir ex_env = Inr ([?a] @ ?e # [])"
    by (simp add: ex_env_def ex_entries_def)
  have 2: "str ''a'' \<noteq> []" by (simp add: str_def)
  have 3: "\<forall>file\<in>set [?a]. set (candidate ex_lib ex_env file) \<subseteq> set printable"
    by (simp add: ex_candidates ex_printable)
  have 4: "\<forall>file\<in>set [?a]. contains (candidate ex_lib ex_env file) (str ''a'') \<longrightarrow>
      highlight ex_lib (str ''red'') (str ''a'') (candidate ex_lib ex_env file) =
        Inr ((\<lambda>file. str ''/d/[a]'') file)"
    by (simp add: ex_candidates ex_highlight)
  have 5: "\<not> set (candidate ex_lib ex_env ?e) \<subseteq> set printable"
    by (simp only: ex_candidates ex_printable) simp
  from main_abort [OF 1 2 ex_printable(1) 3 4 5, of h] obtain c where
    c: "c \<in> set (candidate ex_lib ex_env ?e)" "c \<notin> set printable" and
    m: "main ex_lib ex_env h (str ''a'') (str ''red'') =
      (path_checks ex_env @
       map (\<lambda>file. Stdout (str ''/d/[a]''))
         (filter (\<lambda>file. contains (candidate ex_lib ex_env file) (str ''a'')) [?a]),
       Raised (KeyError c))"
    by blast
  from c have "c = 233" by (auto simp: ex_candidates str_def set_printable)
  moreover have "path_checks ex_env = []" by (simp add: path_checks_def ex_env_def)
  ultimately show ?thesis using m by (simp add: ex_candidates ex_contains)
qed

lemma ex_abort_rev:
  "main ex_lib (ex_env\<lparr>scandir := Inr (rev ex_entries)\<rparr>) h (str ''a'') (str ''red'') =
     ([], Raised (KeyError 233))"
proof -
  let ?a = "\<lparr>entry_name = str ''a'', entry_path = str ''/d/a''\<rparr>"
  let ?e = "\<lparr>entry_name = [233], entry_path = str ''/d/'' @ [233]\<rparr>"
  let ?E = "ex_env\<lparr>scandir := Inr (rev ex_entries)\<rparr>"
  have cand: "candidate ex_lib ?E = candidate ex_lib ex_env"
    by (rule ext) (simp add: candidate_def)
  have 1: "scandir ?E = Inr ([] @ ?e # [?a])"
    by (simp add: ex_entries_def)
  have 2: "str ''a'' \<noteq> []" by (simp add: str_def)
  have 3: "\<forall>file\<in>set []. set (candidate ex_lib ?E file) \<subseteq> set printable"
    by simp
  have 4: "\<forall>file\<in>set []. contains (candidate ex_lib ?E file) (str ''a'') \<longrightarrow>
      highlight ex_lib (str ''red'') (str ''a'') (candidate ex_lib ?E file) =
        Inr ((\<lambda>file. []) file)"
    by simp
  have 5: "\<not> set (candidate ex_lib ?E ?e) \<subseteq> set printable"
    by (simp only: cand ex_candidates ex_printable) simp
  from main_abort [OF 1 2 ex_printable(1) 3 4 5, of h] obtain c where
    c: "c \<in> set (candidate ex_lib ?E ?e)" "c \<notin> set printable" and
    m: "main ex_lib ?E h (str ''a'') (str ''red'') = (path_checks ?E @ [], Raised (KeyError c))"
    by auto
  from c have "c = 233" by (auto simp: cand ex_candidates str_def set_printable)
  moreover have "path_checks ?E = []" by (simp add: path_checks_def ex_env_def)
  ultimately show ?thesis using m by simp
qed

lemma ex_refused:
  "main ex_lib ex_env h (str ''a'') (str ''r'') = ([], Raised (KeyError_color (str ''r'')))"
proof -
  let ?a = "\<lparr>entry_name = str ''a'', entry_path = str ''/d/a''\<rparr>"
  let ?e = "\<lparr>entry_name = [233], entry_path = str ''/d/'' @ [233]\<rparr>"
  have 1: "scandir ex_env = Inr (?a # [?e])"
    by (simp add: ex_env_def ex_entries_def)
  have 2: "str ''a'' \<noteq> []" by (simp add: str_def)
  have 3: "set (candidate ex_lib ex_env ?a) \<subseteq> set printable"
    by (simp add: ex_candidates ex_printable)
  have 4: "contains (candidate ex_lib ex_env ?a) (str ''a'')"
    by (simp add: ex_candidates ex_contains)
  have 5: "highlight ex_lib (str ''r'') (str ''a'') (candidate ex_lib ex_env ?a) =
      Inl (KeyError_color (str ''r''))"
    by (simp add: ex_candidates ex_highlight_refused)
  have "path_checks ex_env = []" by (simp add: path_checks_def ex_env_def)
  with main_refused [OF 1 2 ex_printable(1) 3 4 5, of h] show ?thesis by simp
qed

lemma ex_missing_path:
  "main L (ex_env\<lparr>path_exists := False, path_is_dir := False, scandir := Inl OSError\<rparr>)
      h query color =
     ([Stderr (not_exist_msg (str ''/d'')), Stderr (not_dir_msg (str ''/d''))], Raised OSError)"
  by (simp add: main_scandir_error path_checks_def ex_env_def)

lemma ex_fruit_run:
  "main ex_lib ex_fruit_env h (str ''ap'') (str ''red'') =
     ([Stdout (str ''/d/[a][p]ple.txt''), Stdout (str ''/d/gr[a][p]e.txt'')], Returned)"
proof -
  define line where "line = (\<lambda>file :: DirEntry.
    if entry_name file = str ''apple.txt'' then str ''/d/[a][p]ple.txt''
    else str ''/d/gr[a][p]e.txt'')"
  have cand: "map (candidate ex_lib ex_fruit_env) ex_fruit =
      [str ''/d/apple.txt'', str ''/d/banana.txt'', str ''/d/grape.txt'']"
    by (simp add: candidate_def ex_lib_def ex_fruit_env_def ex_fruit_def str_def)
  have 1: "scandir ex_fruit_env = Inr ex_fruit" by (simp add: ex_fruit_env_def)
  have 2: "str ''ap'' \<noteq> []" and 3: "set (str ''ap'') \<subseteq> set printable"
    by (simp_all add: str_def set_printable)
  have "\<forall>s\<in>set (map (candidate ex_lib ex_fruit_env) ex_fruit). set s \<subseteq> set printable"
    unfolding cand by (simp add: str_def set_printable)
  then have 4: "\<forall>file\<in>set ex_fruit. set (candidate ex_lib ex_fruit_env file) \<subseteq> set printable"
    by simp
  have c: "candidate ex_lib ex_fruit_env \<lparr>entry_name = str ''apple.txt'', entry_path = p\<rparr> =
      str ''/d/apple.txt''"
    "candidate ex_lib ex_fruit_env \<lparr>entry_name = str ''banana.txt'', entry_path = p\<rparr> =
      str ''/d/banana.txt''"
    "candidate ex_lib ex_fruit_env \<lparr>entry_name = str ''grape.txt'', entry_path = p\<rparr> =
      str ''/d/grape.txt''" for p
    by (simp_all add: candidate_def ex_lib_def ex_fruit_env_def str_def)
  have m: "matched_indexes (str ''/d/apple.txt'') (str ''ap'') = [3, 4]"
    "matched_indexes (str ''/d/grape.txt'') (str ''ap'') = [5, 6]"
    by (simp_all add: matched_indexes_def occ_def str_def printable_def)
  have hl: "highlight ex_lib (str ''red'') (str ''ap'') (str ''/d/apple.txt'') =
      Inr (str ''/d/[a][p]ple.txt'')"
    "highlight ex_lib (str ''red'') (str ''ap'') (str ''/d/grape.txt'') =
      Inr (str ''/d/gr[a][p]e.txt'')"
    unfolding highlight_def m by (simp_all add: ex_lib_def ex_colors_def str_def)
  have ct: "contains (str ''/d/apple.txt'') (str ''ap'')"
    "\<not> contains (str ''/d/banana.txt'') (str ''ap'')"
    "contains (str ''/d/grape.txt'') (str ''ap'')"
    by (simp_all add: contains_def str_def)
  have 5: "\<forall>file\<in>set ex_fruit. contains (candidate ex_lib ex_fruit_env file) (str ''ap'') \<longrightarrow>
      highlight ex_lib (str ''red'') (str ''ap'') (candidate ex_lib ex_fruit_env file) =
        Inr (line file)"
    by (simp add: ex_fruit_def c ct hl line_def) (simp add: str_def)
  have "path_checks ex_fruit_env = []" by (simp add: path_checks_def ex_fruit_env_def)
  with main_scan [OF 1 2 3 4 5, of h] show ?thesis
    by (simp add: ex_fruit_def c ct line_def) (simp add: str_def)
qed

section \<open>What aborts the scan\<close>

text \<open>
  Claim C5 on the code. The directory \<open>/d\<close> exists and is a directory, so no path
  check fails, and yet \<open>main\<close> does not finish the scan. With the query \<open>a\<close> and the
  colour \<open>red\<close> it reports \<open>/d/a\<close> and ends with the \<open>KeyError\<close> the profiler raises
  on the second entry, whose name has a character outside the alphabet. With the colour
  the script passes when no \<open>-c\<close> is given, the string \<open>r\<close>, it ends at the first match
  with the \<open>KeyError\<close> of \<open>colored\<close>, and reports nothing.
\<close>

theorem scan_aborted_by_KeyError:
  "path_exists ex_env \<and> path_is_dir ex_env \<and> scandir ex_env = Inr ex_entries \<and>
   main ex_lib ex_env empty_heap (str ''a'') (color_argument (Some (str ''red''))) =
     ([Stdout (str ''/d/[a]'')], Raised (KeyError 233)) \<and>
   main ex_lib ex_env empty_heap (str ''a'') (color_argument None) =
     ([], Raised (KeyError_color (str ''r'')))"
  by (simp add: color_argument_simps ex_abort ex_refused) (simp add: ex_env_def)

section \<open>The order of the enumeration\<close>

text \<open>
  Claim C7 on the code. The same two entries, \<open>a\<close> and e-acute, are enumerated in both
  orders with the query \<open>a\<close>. When \<open>a\<close> comes first its match is reported before the
  profiler fails on the other entry; when it comes second the scan has ended before it
  is looked at, and nothing is reported: the failure on one candidate decides what is
  reported of the other.
\<close>

theorem reported_matches_depend_on_order:
  "mset (rev ex_entries) = mset ex_entries \<and>
   main ex_lib ex_env empty_heap (str ''a'') (str ''red'') =
     ([Stdout (str ''/d/[a]'')], Raised (KeyError 233)) \<and>
   main ex_lib (ex_env\<lparr>scandir := Inr (rev ex_entries)\<rparr>) empty_heap (str ''a'') (str ''red'') =
     ([], Raised (KeyError 233))"
  by (simp add: ex_abort ex_abort_rev)

end
